theory Spec2Isabelle
  imports Main "HOL-Library.Word" "HOL-Library.Sublist" "HOL-Library.Multiset"
begin

unbundle bit_operations_syntax

section \<open>Data model\<close>

text \<open>
  A Python \<^verbatim>\<open>bytes\<close> value is a list of 8-bit words. A Python \<^verbatim>\<open>str\<close> is a list of
  Unicode code points. The exceptions that the modelled code can raise are values
  of \<open>py_error\<close>; a call that may raise returns \<open>py_error + 'a\<close>.
\<close>

type_synonym byte = "8 word"
type_synonym bytes = "byte list"
type_synonym str = "nat list"

datatype py_error =
  ValueError | TypeError | IndexError | AssertionError | UnicodeEncodeError
  | EOFError | KeyboardInterrupt

text \<open>The value of a call that has been shown not to raise.\<close>

definition returned :: "py_error + 'a list \<Rightarrow> 'a list" where
  "returned r = (case r of Inr v \<Rightarrow> v | Inl e \<Rightarrow> [])"

text \<open>String literals of the source, as code points and as bytes.\<close>

definition chars :: "string \<Rightarrow> str" where
  "chars s = map of_char s"

definition ascii :: "string \<Rightarrow> bytes" where
  "ascii s = map (\<lambda>c. of_nat (of_char c)) s"

section \<open>UTF-8, as \<^verbatim>\<open>bytes.decode\<close> and \<^verbatim>\<open>str.encode\<close> use it\<close>

definition is_cont :: "byte \<Rightarrow> bool" where
  "is_cont c = (0x80 \<le> unat c \<and> unat c \<le> 0xBF)"

definition cont :: "byte \<Rightarrow> nat" where
  "cont c = unat c - 0x80"

text \<open>
  One well-formed UTF-8 sequence at the head of the input: its code point and the
  bytes after it. Overlong forms, surrogates and values above 0x10FFFF are
  rejected, as CPython's decoder does.
\<close>

fun utf8_char :: "bytes \<Rightarrow> (nat \<times> bytes) option" where
  "utf8_char [] = None"
| "utf8_char (b # bs) =
    (let n = unat b in
     if n < 0x80 then Some (n, bs)
     else if 0xC2 \<le> n \<and> n \<le> 0xDF then
       (case bs of
          c1 # r \<Rightarrow>
            if is_cont c1 then Some ((n - 0xC0) * 64 + cont c1, r) else None
        | _ \<Rightarrow> None)
     else if 0xE0 \<le> n \<and> n \<le> 0xEF then
       (case bs of
          c1 # c2 # r \<Rightarrow>
            if (if n = 0xE0 then 0xA0 else 0x80) \<le> unat c1
               \<and> unat c1 \<le> (if n = 0xED then 0x9F else 0xBF) \<and> is_cont c2
            then Some ((n - 0xE0) * 4096 + cont c1 * 64 + cont c2, r) else None
        | _ \<Rightarrow> None)
     else if 0xF0 \<le> n \<and> n \<le> 0xF4 then
       (case bs of
          c1 # c2 # c3 # r \<Rightarrow>
            if (if n = 0xF0 then 0x90 else 0x80) \<le> unat c1
               \<and> unat c1 \<le> (if n = 0xF4 then 0x8F else 0xBF)
               \<and> is_cont c2 \<and> is_cont c3
            then Some ((n - 0xF0) * 262144 + cont c1 * 4096 + cont c2 * 64 + cont c3, r)
            else None
        | _ \<Rightarrow> None)
     else None)"

lemma utf8_char_shorter: "utf8_char bs = Some (c, r) \<Longrightarrow> length r < length bs"
  by (cases bs) (auto simp: Let_def split: if_splits list.splits)

text \<open>\<^verbatim>\<open>bytes.decode()\<close>: \<open>None\<close> is UnicodeDecodeError.\<close>

function bytes_decode :: "bytes \<Rightarrow> str option" where
  "bytes_decode [] = Some []"
| "bytes_decode (b # bs) =
    (case utf8_char (b # bs) of
       None \<Rightarrow> None
     | Some (c, r) \<Rightarrow> map_option ((#) c) (bytes_decode r))"
  by pat_completeness auto
termination
  by (relation "measure length") (auto dest: utf8_char_shorter simp del: utf8_char.simps)

text \<open>
  \<^verbatim>\<open>bytes.decode(errors='ignore')\<close>: a byte that starts no well-formed sequence is
  dropped and decoding goes on at the next byte.
\<close>

function decode_ignore :: "bytes \<Rightarrow> str" where
  "decode_ignore [] = []"
| "decode_ignore (b # bs) =
    (case utf8_char (b # bs) of
       None \<Rightarrow> decode_ignore bs
     | Some (c, r) \<Rightarrow> c # decode_ignore r)"
  by pat_completeness auto
termination
  by (relation "measure length") (auto dest: utf8_char_shorter simp del: utf8_char.simps)

text \<open>
  \<^verbatim>\<open>str.encode()\<close>. Python raises UnicodeEncodeError on a lone surrogate; the
  strings encoded by \<^verbatim>\<open>xor_key_text\<close> are decoded UTF-8 and corpus words, which
  hold none, and the one place that encodes raw user input checks for them.
\<close>

definition utf8_encode_char :: "nat \<Rightarrow> bytes" where
  "utf8_encode_char c =
     (if c < 0x80 then [of_nat c]
      else if c < 0x800 then [of_nat (0xC0 + c div 64), of_nat (0x80 + c mod 64)]
      else if c < 0x10000 then
        [of_nat (0xE0 + c div 4096), of_nat (0x80 + c div 64 mod 64), of_nat (0x80 + c mod 64)]
      else
        [of_nat (0xF0 + c div 262144), of_nat (0x80 + c div 4096 mod 64),
         of_nat (0x80 + c div 64 mod 64), of_nat (0x80 + c mod 64)])"

definition str_encode :: "str \<Rightarrow> bytes" where
  "str_encode s = concat (map utf8_encode_char s)"

section \<open>ByteOps\<close>

subsection \<open>\<^verbatim>\<open>xor\<close> of pwntools and \<^verbatim>\<open>xor_key_text\<close>\<close>

text \<open>
  \<^verbatim>\<open>pwn.xor(*args)\<close> with the default \<^verbatim>\<open>cut='max'\<close>, statement by statement as in
  \<^verbatim>\<open>pwnlib/util/fiddling.py\<close>:
  \<^item> \<^verbatim>\<open>if len(args) == 0: raise ValueError("Must have something to xor")\<close>;
  \<^item> \<^verbatim>\<open>strs = [bytearray(s) for s in strs if s]\<close> drops the empty arguments;
  \<^item> \<^verbatim>\<open>if strs == []: return b''\<close> returns the empty string when none is left, so
    that the maximum below is never taken of an empty sequence;
  \<^item> \<^verbatim>\<open>cut = max(len(s) for s in strs)\<close>;
  \<^item> byte \<open>n\<close> of the result, for \<open>n\<close> below \<open>cut\<close>, is the XOR over \<open>strs\<close> of
    \<^verbatim>\<open>s[n % len(s)]\<close>, starting from 0.
\<close>

definition pwn_xor :: "bytes list \<Rightarrow> py_error + bytes" where
  "pwn_xor args =
     (if args = [] then Inl ValueError
      else
        let strs = filter (\<lambda>s. s \<noteq> []) args in
        if strs = [] then Inr []
        else
          let cut = fold max (map length strs) 0 in
          Inr (map (\<lambda>n. fold (\<lambda>s rv. rv XOR s ! (n mod length s)) strs 0) [0..<cut]))"

text \<open>
  \<^verbatim>\<open>xor_key_text(key, text)\<close> on two byte strings. A \<^verbatim>\<open>str\<close> argument is encoded
  first; the callers below write that \<open>str_encode\<close> at the call.
\<close>

definition xor_key_text :: "bytes \<Rightarrow> bytes \<Rightarrow> py_error + bytes" where
  "xor_key_text key text =
     (let target_length = min (length key) (length text) in
      case pwn_xor [key, text] of
        Inl e \<Rightarrow> Inl e
      | Inr r \<Rightarrow> Inr (take target_length r))"

definition xor_key_text_list :: "bytes \<Rightarrow> bytes list \<Rightarrow> bytes list" where
  "xor_key_text_list key text_list = map (\<lambda>text. returned (xor_key_text key text)) text_list"

lemma take_cycled_xor:
  assumes "a \<noteq> []" "b \<noteq> []"
  shows "take (min (length a) (length b))
          (map (\<lambda>n. (0 XOR a ! (n mod length a)) XOR b ! (n mod length b))
             [0..<max (length a) (length b)])
        = map2 (XOR) a b"
proof (rule nth_equalityI)
  show "length (take (min (length a) (length b))
          (map (\<lambda>n. (0 XOR a ! (n mod length a)) XOR b ! (n mod length b))
             [0..<max (length a) (length b)])) = length (map2 (XOR) a b)"
    by simp
next
  fix i
  assume "i < length (take (min (length a) (length b))
          (map (\<lambda>n. (0 XOR a ! (n mod length a)) XOR b ! (n mod length b))
             [0..<max (length a) (length b)]))"
  then have i: "i < length a" "i < length b" "i < max (length a) (length b)" by auto
  then show "take (min (length a) (length b))
          (map (\<lambda>n. (0 XOR a ! (n mod length a)) XOR b ! (n mod length b))
             [0..<max (length a) (length b)]) ! i = map2 (XOR) a b ! i"
    by simp
qed

lemma xor_key_text_eq: "xor_key_text a b = Inr (map2 (XOR) a b)"
proof (cases "a = [] \<or> b = []")
  case True
  then show ?thesis by (auto simp: xor_key_text_def pwn_xor_def Let_def)
next
  case False
  then have ne: "a \<noteq> []" "b \<noteq> []" by auto
  from take_cycled_xor [OF ne] ne show ?thesis
    by (simp add: xor_key_text_def pwn_xor_def Let_def max.commute)
qed

lemma returned_xor [simp]: "returned (xor_key_text a b) = map2 (XOR) a b"
  by (simp add: xor_key_text_eq returned_def)

lemma xor_key_text_list_eq: "xor_key_text_list k ts = map (\<lambda>t. map2 (XOR) k t) ts"
  by (simp add: xor_key_text_list_def)

text \<open>
  C8. For all byte sequences \<open>a\<close> and \<open>b\<close>, \<^verbatim>\<open>xor_key_text\<close> raises nothing and
  returns a byte string of length \<open>min (len a) (len b)\<close> whose \<open>i\<close>-th byte is
  \<open>a[i] XOR b[i]\<close>, for every \<open>i\<close> below that length.
\<close>

theorem xor_key_text_total:
  "\<exists>r. xor_key_text a b = Inr r \<and> length r = min (length a) (length b)
     \<and> (\<forall>i < length r. r ! i = a ! i XOR b ! i)"
  by (simp add: xor_key_text_eq)

theorem xor_key_text_total_witness:
  "\<exists>r. xor_key_text [0x41, 0x42, 0x43] [0x20, 0x01] = Inr r \<and> length r = 2
     \<and> (0::nat) < 2 \<and> r ! 0 = 0x61 \<and> r ! 1 = 0x43"
proof -
  from xor_key_text_total [of "[0x41, 0x42, 0x43]" "[0x20, 0x01]"]
  obtain r where r: "xor_key_text [0x41, 0x42, 0x43] [0x20, 0x01] = Inr r"
    "length r = 2" "\<forall>i < length r. r ! i = [0x41, 0x42, 0x43 :: byte] ! i XOR [0x20, 0x01] ! i"
    by auto
  from r(2,3) have "r ! 0 = 0x61" "r ! 1 = 0x43" by simp_all
  with r(1,2) show ?thesis by simp
qed

text \<open>
  C9. For byte sequences of equal length, combining twice with the same second
  operand gives the first operand back.
\<close>

theorem xor_key_text_involution:
  "length a = length b \<Longrightarrow>
     xor_key_text (returned (xor_key_text a b)) b = Inr a"
proof -
  assume len: "length a = length b"
  have "map2 (XOR) (map2 (XOR) a b) b = a"
    using len by (induction a b rule: list_induct2) (simp_all add: xor.assoc)
  then show ?thesis by (simp add: xor_key_text_eq returned_def)
qed

theorem xor_key_text_involution_witness:
  "length [0x74, 0x68, 0x65 :: byte] = length [0x73, 0x65, 0x63 :: byte]
   \<and> xor_key_text (returned (xor_key_text [0x74, 0x68, 0x65] [0x73, 0x65, 0x63])) [0x73, 0x65, 0x63]
       = Inr [0x74, 0x68, 0x65]"
  using xor_key_text_involution [of "[0x74, 0x68, 0x65]" "[0x73, 0x65, 0x63]"] by simp

subsection \<open>Printable ASCII and forbidden punctuation\<close>

text \<open>
  The constants of Python's \<^verbatim>\<open>string\<close> module. \<open>string_punctuation\<close> is the 32
  ASCII punctuation characters in code order; \<open>string_whitespace\<close> is space, tab,
  line feed, carriage return, vertical tab and form feed.
\<close>

definition string_digits :: str where
  "string_digits = chars ''0123456789''"

definition string_ascii_lowercase :: str where
  "string_ascii_lowercase = chars ''abcdefghijklmnopqrstuvwxyz''"

definition string_ascii_uppercase :: str where
  "string_ascii_uppercase = chars ''ABCDEFGHIJKLMNOPQRSTUVWXYZ''"

definition string_punctuation :: str where
  "string_punctuation = [0x21..<0x30] @ [0x3A..<0x41] @ [0x5B..<0x61] @ [0x7B..<0x7F]"

definition string_whitespace :: str where
  "string_whitespace = [0x20, 0x09, 0x0A, 0x0D, 0x0B, 0x0C]"

definition string_printable :: str where
  "string_printable =
     string_digits @ string_ascii_lowercase @ string_ascii_uppercase
       @ string_punctuation @ string_whitespace"

text \<open>\<^verbatim>\<open>all(c in string.printable for c in text)\<close> on a \<^verbatim>\<open>str\<close>.\<close>

definition check_ascii_str :: "str \<Rightarrow> bool" where
  "check_ascii_str text = list_all (\<lambda>c. c \<in> set string_printable) text"

text \<open>\<^verbatim>\<open>check_ascii\<close> on \<^verbatim>\<open>bytes\<close>: decode, False on UnicodeDecodeError.\<close>

definition check_ascii :: "bytes \<Rightarrow> bool" where
  "check_ascii text =
     (case bytes_decode text of
        None \<Rightarrow> False
      | Some t \<Rightarrow> check_ascii_str t)"

text \<open>
  The forbidden characters of \<^verbatim>\<open>extra_strict_check\<close>, in the order of the source
  literal: double quote, \<^verbatim>\<open>#$%&\<close>, backslash, \<^verbatim>\<open>()*+/<=>@[\<close>, backslash,
  \<^verbatim>\<open>]^\<close>, backquote, \<^verbatim>\<open>|~\<close>.
\<close>

definition forbidden_chars :: str where
  "forbidden_chars =
     [0x22, 0x23, 0x24, 0x25, 0x26, 0x5C, 0x28, 0x29, 0x2A, 0x2B, 0x2F, 0x3C, 0x3D, 0x3E,
      0x40, 0x5B, 0x5C, 0x5D, 0x5E, 0x60, 0x7C, 0x7E]"

definition extra_strict_check :: "bytes \<Rightarrow> bool" where
  "extra_strict_check sentence =
     (let sentence = decode_ignore sentence in
      \<not> list_ex (\<lambda>c. c \<in> set forbidden_chars) sentence)"

text \<open>\<^verbatim>\<open>check_potential_stream\<close>: \<open>None\<close> is the source's \<^verbatim>\<open>None\<close>.\<close>

definition check_potential_stream :: "bytes \<Rightarrow> bytes list \<Rightarrow> bool \<Rightarrow> bytes list option" where
  "check_potential_stream target_key text_list strict =
     (let xored_stream = xor_key_text_list target_key text_list in
      if list_all check_ascii xored_stream then
        if strict then
          if list_all extra_strict_check xored_stream then Some xored_stream else None
        else Some xored_stream
      else None)"

text \<open>
  Python's truth value of an \<^verbatim>\<open>Optional[List]\<close>: \<^verbatim>\<open>None\<close> and the empty list are
  false.
\<close>

definition truthy :: "'a list option \<Rightarrow> bool" where
  "truthy r = (case r of None \<Rightarrow> False | Some xs \<Rightarrow> xs \<noteq> [])"

subsection \<open>\<^verbatim>\<open>verify_substring_keys\<close>\<close>

text \<open>\<^verbatim>\<open>min(keys, key=len)\<close> scanning from a first element: the first of least length.\<close>

fun min_by_len :: "bytes \<Rightarrow> bytes list \<Rightarrow> bytes" where
  "min_by_len m [] = m"
| "min_by_len m (k # ks) = min_by_len (if length k < length m then k else m) ks"

text \<open>\<^verbatim>\<open>sub in s\<close> on \<^verbatim>\<open>bytes\<close>: \<open>sub\<close> occurs in \<open>s\<close> at some offset.\<close>

fun bytes_in :: "bytes \<Rightarrow> bytes \<Rightarrow> bool" where
  "bytes_in sub [] = (sub = [])"
| "bytes_in sub (x # xs) = (prefix sub (x # xs) \<or> bytes_in sub xs)"

definition verify_substring_keys :: "bytes list \<Rightarrow> bool" where
  "verify_substring_keys keys =
     (case keys of
        [] \<Rightarrow> False
      | k # ks \<Rightarrow>
          let smallest_key = min_by_len k ks in
          list_all (\<lambda>key. bytes_in smallest_key key) keys)"

text \<open>
  \<^verbatim>\<open>sorted(xs, key=len, reverse=True)\<close>: CPython reverses, sorts stably and
  reverses again, so equal lengths keep their order.
\<close>

definition sorted_by_len_rev :: "bytes list \<Rightarrow> bytes list" where
  "sorted_by_len_rev xs = rev (sort_key length (rev xs))"

lemma in_string_digits: "c \<in> set string_digits \<longleftrightarrow> 0x30 \<le> c \<and> c < 0x3A"
  unfolding string_digits_def chars_def by simp presburger

lemma in_string_ascii_lowercase:
  "c \<in> set string_ascii_lowercase \<longleftrightarrow> 0x61 \<le> c \<and> c < 0x7B"
  unfolding string_ascii_lowercase_def chars_def by simp presburger

lemma in_string_ascii_uppercase:
  "c \<in> set string_ascii_uppercase \<longleftrightarrow> 0x41 \<le> c \<and> c < 0x5B"
  unfolding string_ascii_uppercase_def chars_def by simp presburger

lemma in_string_punctuation:
  "c \<in> set string_punctuation \<longleftrightarrow>
     (0x21 \<le> c \<and> c < 0x30) \<or> (0x3A \<le> c \<and> c < 0x41) \<or> (0x5B \<le> c \<and> c < 0x61)
       \<or> (0x7B \<le> c \<and> c < 0x7F)"
  unfolding string_punctuation_def
  by (simp only: set_append set_upt Un_iff atLeastLessThan_iff disj_assoc)

lemma in_string_whitespace:
  "c \<in> set string_whitespace \<longleftrightarrow> c = 0x20 \<or> (0x09 \<le> c \<and> c \<le> 0x0D)"
  unfolding string_whitespace_def by simp presburger

lemma in_string_printable:
  "c \<in> set string_printable \<longleftrightarrow> (0x20 \<le> c \<and> c \<le> 0x7E) \<or> (0x09 \<le> c \<and> c \<le> 0x0D)"
  unfolding string_printable_def
  by (simp add: in_string_digits in_string_ascii_lowercase in_string_ascii_uppercase
        in_string_punctuation in_string_whitespace) presburger

lemma in_forbidden_chars_ascii: "c \<in> set forbidden_chars \<Longrightarrow> c < 0x80"
  unfolding forbidden_chars_def by auto

lemma utf8_char_ascii: "unat b < 0x80 \<Longrightarrow> utf8_char (b # bs) = Some (unat b, bs)"
  by simp

lemma utf8_char_high:
  "utf8_char (b # bs) = Some (c, r) \<Longrightarrow> 0x80 \<le> unat b \<Longrightarrow> 0x80 \<le> c"
  by (auto simp: Let_def cont_def is_cont_def split: if_splits list.splits)

lemma check_ascii_Cons_ascii:
  "unat b < 0x80 \<Longrightarrow>
     check_ascii (b # bs) = (unat b \<in> set string_printable \<and> check_ascii bs)"
  by (cases "bytes_decode bs") (simp_all add: check_ascii_def check_ascii_str_def)

lemma check_ascii_Cons_high: "0x80 \<le> unat b \<Longrightarrow> \<not> check_ascii (b # bs)"
proof (cases "utf8_char (b # bs)")
  case None
  then show ?thesis by (simp add: check_ascii_def del: utf8_char.simps)
next
  case (Some p)
  assume hi: "0x80 \<le> unat b"
  obtain c r where p: "p = (c, r)" by (cases p)
  from Some p hi have "0x80 \<le> c" using utf8_char_high by blast
  then have "c \<notin> set string_printable" by (simp add: in_string_printable)
  with Some p show ?thesis
    by (cases "bytes_decode r") (simp_all add: check_ascii_def check_ascii_str_def del: utf8_char.simps)
qed

lemma check_ascii_iff: "check_ascii bs \<longleftrightarrow> list_all (\<lambda>b. unat b \<in> set string_printable) bs"
proof (induction bs)
  case Nil
  show ?case by (simp add: check_ascii_def check_ascii_str_def)
next
  case (Cons b bs)
  show ?case
  proof (cases "unat b < 0x80")
    case True
    with Cons show ?thesis by (simp add: check_ascii_Cons_ascii del: utf8_char.simps)
  next
    case False
    then have "\<not> check_ascii (b # bs)" by (simp add: check_ascii_Cons_high)
    moreover from False have "unat b \<notin> set string_printable" by (simp add: in_string_printable)
    ultimately show ?thesis by simp
  qed
qed

text \<open>
  The printable ASCII range as the specification words it: the characters from
  the space 0x20 to the tilde 0x7E.
\<close>

definition printable_ascii_range :: "nat \<Rightarrow> bool" where
  "printable_ascii_range c = (0x20 \<le> c \<and> c \<le> 0x7E)"

text \<open>
  C7, as amended. \<^verbatim>\<open>check_ascii\<close> on a byte sequence is false exactly when decoding
  fails or some byte lies outside the characters of Python's \<^verbatim>\<open>string.printable\<close>:
  the printable ASCII range 0x20 to 0x7E together with the whitespace controls
  0x09 to 0x0D (tab, line feed, vertical tab, form feed, carriage return). In
  particular any byte outside these two ranges makes the result false.
\<close>

theorem check_ascii_false_iff:
  "(\<not> check_ascii bs) \<longleftrightarrow>
     (bytes_decode bs = None
      \<or> (\<exists>b \<in> set bs. \<not> printable_ascii_range (unat b) \<and> \<not> (0x09 \<le> unat b \<and> unat b \<le> 0x0D)))"
proof -
  have "bytes_decode bs = None \<Longrightarrow> \<not> check_ascii bs"
    by (simp add: check_ascii_def)
  then show ?thesis
    by (auto simp: check_ascii_iff list_all_iff in_string_printable printable_ascii_range_def)
qed

text \<open>
  Against C7 as stated: the tab byte 0x09 decodes and lies outside the range
  0x20 to 0x7E, and \<^verbatim>\<open>check_ascii\<close> returns true on it.
\<close>

theorem check_ascii_accepts_tab:
  "check_ascii [0x09] \<and> bytes_decode [0x09] = Some [0x09]
   \<and> \<not> printable_ascii_range (unat (0x09 :: byte))"
  by (simp add: check_ascii_iff in_string_printable printable_ascii_range_def)

section \<open>WordCorpus\<close>

text \<open>
  The state of a \<^verbatim>\<open>WordFinder\<close> after \<^verbatim>\<open>init_words\<close>: the word list (sorted by
  length when built from NLTK, any list when custom) and the frequency table, an
  \<^verbatim>\<open>nltk.FreqDist\<close>, a dictionary from word to count. \<^verbatim>\<open>all_words_set\<close> is the set
  of \<open>all_words\<close>.

  The third field is \<^verbatim>\<open>str.lower\<close> as the interpreter that runs the finder
  computes it. It follows the case tables of the Unicode database, which are
  no part of the source: the model takes the function as given, and every
  theorem about a finder holds for any such function.
\<close>

record word_finder =
  all_words :: "str list"
  freq_dist :: "str \<Rightarrow> nat option"
  py_lower :: "str \<Rightarrow> str"

text \<open>
  \<^verbatim>\<open>str.lower\<close> on a string of ASCII characters: the capitals A to Z go to a to z.
  The finders of the examples use it; their words are ASCII.
\<close>

definition ascii_lower :: "str \<Rightarrow> str" where
  "ascii_lower s = map (\<lambda>c. if 0x41 \<le> c \<and> c \<le> 0x5A then c + 0x20 else c) s"

text \<open>\<^verbatim>\<open>str.isspace\<close> of one character, and \<^verbatim>\<open>str.split()\<close> with no separator.\<close>

definition isspace :: "nat \<Rightarrow> bool" where
  "isspace c =
     ((0x09 \<le> c \<and> c \<le> 0x0D) \<or> (0x1C \<le> c \<and> c \<le> 0x20) \<or> c = 0x85 \<or> c = 0xA0
      \<or> c = 0x1680 \<or> (0x2000 \<le> c \<and> c \<le> 0x200A) \<or> c = 0x2028 \<or> c = 0x2029
      \<or> c = 0x202F \<or> c = 0x205F \<or> c = 0x3000)"

fun split_from :: "str \<Rightarrow> str \<Rightarrow> str list" where
  "split_from cur [] = (if cur = [] then [] else [cur])"
| "split_from cur (c # cs) =
     (if isspace c then (if cur = [] then split_from [] cs else cur # split_from [] cs)
      else split_from (cur @ [c]) cs)"

definition str_split :: "str \<Rightarrow> str list" where
  "str_split s = split_from [] s"

text \<open>\<^verbatim>\<open>sep.join(xs)\<close>.\<close>

fun str_join :: "str \<Rightarrow> str list \<Rightarrow> str" where
  "str_join sep [] = []"
| "str_join sep [x] = x"
| "str_join sep (x # y # ys) = x @ sep @ str_join sep (y # ys)"

subsection \<open>\<^verbatim>\<open>sort_with_frequencies\<close>\<close>

text \<open>The body of the scoring loop: the value of \<^verbatim>\<open>freq\<close> for one word.\<close>

definition word_freq :: "word_finder \<Rightarrow> str \<Rightarrow> nat" where
  "word_freq self word =
     (case freq_dist self word of
        Some f \<Rightarrow>
          (case freq_dist self (py_lower self word) of
             Some g \<Rightarrow> max f g
           | None \<Rightarrow> f)
      | None \<Rightarrow>
          (case freq_dist self (py_lower self word) of
             Some g \<Rightarrow> g
           | None \<Rightarrow> 0))"

definition sort_with_frequencies :: "word_finder \<Rightarrow> str list \<Rightarrow> str list" where
  "sort_with_frequencies self matching_words =
     (let scored_words =
            concat (map (\<lambda>word. let freq = word_freq self word in
                                 if freq \<noteq> 0 then [(word, freq)] else []) matching_words);
          sorted_words = rev (sort_key snd (rev scored_words))
      in map fst sorted_words)"

text \<open>
  The frequency as the specification words it: the case-sensitive entry of the
  word, and the entry of its lowercase form only when the word has none.
\<close>

definition spec_frequency :: "word_finder \<Rightarrow> str \<Rightarrow> nat" where
  "spec_frequency self word =
     (case freq_dist self word of
        Some f \<Rightarrow> f
      | None \<Rightarrow> (case freq_dist self (py_lower self word) of Some g \<Rightarrow> g | None \<Rightarrow> 0))"

text \<open>The count a \<^verbatim>\<open>FreqDist\<close> reports for a key: 0 when the key is absent.\<close>

definition fd_count :: "word_finder \<Rightarrow> str \<Rightarrow> nat" where
  "fd_count self word = (case freq_dist self word of Some f \<Rightarrow> f | None \<Rightarrow> 0)"

subsection \<open>Completion of the last word\<close>

definition get_matching_words :: "word_finder \<Rightarrow> str \<Rightarrow> str list \<Rightarrow> bool \<Rightarrow> str list" where
  "get_matching_words self pfx words_list add_space =
     (let matching_words = filter (\<lambda>word. prefix pfx word) (all_words self);
          sorted_words = sort_with_frequencies self matching_words;
          base_sentence = str_join [0x20] (butlast words_list);
          potential_sentences = map (\<lambda>word. base_sentence @ [0x20] @ word) sorted_words
      in if add_space then map (\<lambda>sentence. sentence @ [0x20]) potential_sentences
         else potential_sentences)"

definition match_sentence :: "word_finder \<Rightarrow> bytes \<Rightarrow> bool \<Rightarrow> bool \<Rightarrow> str list option" where
  "match_sentence self sentence strict add_space =
     (let sentence = decode_ignore sentence;
          words = str_split sentence
      in if words = [] then None
         else
           let last_word = last words in
           if last_word \<noteq> [] \<and> \<not> list_ex (\<lambda>c. c \<in> set string_punctuation) last_word then
             if strict then
               if last_word \<notin> set (all_words self)
               then Some (get_matching_words self last_word words add_space) else None
             else
               if 2 \<le> length last_word
               then Some (get_matching_words self last_word words add_space) else None
           else None)"

definition check_sentence :: "word_finder \<Rightarrow> bytes \<Rightarrow> bool \<Rightarrow> bool" where
  "check_sentence self sentence strict =
     (case bytes_decode sentence of
        None \<Rightarrow> False
      | Some sentence \<Rightarrow>
          if check_ascii_str sentence then
            let cleaned_sentence = filter (\<lambda>c. c \<notin> set string_punctuation) sentence;
                words = str_split cleaned_sentence
            in if strict then set words \<subseteq> set (all_words self) else True
          else False)"

text \<open>
  A sample of the Brown corpus counts, where a capitalised word and its lowercase
  form both have an entry.
\<close>

definition brown_sample :: word_finder where
  "brown_sample =
     \<lparr>all_words = [chars ''of'', chars ''The'', chars ''the''],
      freq_dist = map_of [(chars ''The'', 7258), (chars ''the'', 62713), (chars ''of'', 36080)],
      py_lower = ascii_lower\<rparr>"

lemma word_freq_max:
  "word_freq self w = max (fd_count self w) (fd_count self (py_lower self w))"
  by (simp add: word_freq_def fd_count_def split: option.splits)

lemma scored_words_eq:
  "concat (map (\<lambda>word. if word_freq self word \<noteq> 0 then [(word, word_freq self word)]
                        else []) ws)
   = map (\<lambda>w. (w, word_freq self w)) (filter (\<lambda>w. word_freq self w \<noteq> 0) ws)"
  by (induction ws) simp_all

lemma sort_with_frequencies_eq:
  "sort_with_frequencies self ws =
     map fst (rev (sort_key snd (rev (map (\<lambda>w. (w, word_freq self w))
                                        (filter (\<lambda>w. word_freq self w \<noteq> 0) ws)))))"
  unfolding sort_with_frequencies_def Let_def scored_words_eq ..

lemma sorted_desc_scored:
  assumes "\<forall>p \<in> set ps. snd p = f (fst p)"
  shows "sorted_wrt (\<lambda>a b. f b \<le> f a) (map fst (rev (sort_key snd (rev ps))))"
proof -
  let ?ys = "sort_key snd (rev ps)"
  have "\<forall>p \<in> set ?ys. snd p = f (fst p)" using assms by simp
  then have eq: "map snd ?ys = map (\<lambda>p. f (fst p)) ?ys" by (intro map_cong) simp_all
  have "sorted (map snd ?ys)" by (rule sorted_sort_key)
  then have "sorted (map (\<lambda>p. f (fst p)) ?ys)" unfolding eq .
  then have "sorted_wrt (\<lambda>p q. f (fst p) \<le> f (fst q)) ?ys"
    by (simp add: sorted_map)
  then show ?thesis by (simp add: sorted_wrt_map sorted_wrt_rev)
qed

text \<open>
  C6, as amended. \<^verbatim>\<open>sort_with_frequencies\<close> returns exactly the input words whose
  frequency is nonzero (with their multiplicities), ordered by descending
  frequency, where the frequency of a word is the larger of its own count and the
  count of its lowercase form in the frequency model (an absent entry counts 0).
\<close>

theorem sort_with_frequencies_max_count:
  "mset (sort_with_frequencies self ws)
     = mset (filter (\<lambda>w. max (fd_count self w) (fd_count self (py_lower self w)) \<noteq> 0) ws)
   \<and> sorted_wrt (\<lambda>a b. max (fd_count self b) (fd_count self (py_lower self b))
                        \<le> max (fd_count self a) (fd_count self (py_lower self a)))
        (sort_with_frequencies self ws)"
proof -
  let ?f = "word_freq self"
  let ?ps = "map (\<lambda>w. (w, ?f w)) (filter (\<lambda>w. ?f w \<noteq> 0) ws)"
  have "mset (sort_with_frequencies self ws) = mset (map fst ?ps)"
    unfolding sort_with_frequencies_eq mset_map mset_rev mset_sort ..
  then have m: "mset (sort_with_frequencies self ws) = mset (filter (\<lambda>w. ?f w \<noteq> 0) ws)"
    by (simp add: comp_def)
  have "\<forall>p \<in> set ?ps. snd p = ?f (fst p)" by auto
  then have "sorted_wrt (\<lambda>a b. ?f b \<le> ?f a) (sort_with_frequencies self ws)"
    unfolding sort_with_frequencies_eq by (rule sorted_desc_scored)
  with m show ?thesis by (simp add: word_freq_max)
qed

text \<open>
  Against C6 as stated: with the counts of \<open>brown_sample\<close> the result lists
  \<^verbatim>\<open>The\<close> before \<^verbatim>\<open>of\<close>, although the case-sensitive entry of \<^verbatim>\<open>The\<close> (7258), which
  exists so that no fallback applies, is below the entry of \<^verbatim>\<open>of\<close> (36080).
\<close>

theorem sort_with_frequencies_not_fallback:
  "sort_with_frequencies brown_sample [chars ''The'', chars ''of''] = [chars ''The'', chars ''of'']
   \<and> spec_frequency brown_sample (chars ''The'') = 7258
   \<and> spec_frequency brown_sample (chars ''of'') = 36080"
  by (simp add: sort_with_frequencies_def brown_sample_def word_freq_def spec_frequency_def
        chars_def ascii_lower_def)

lemma str_encode_space: "str_encode (0x20 # s) = 0x20 # str_encode s"
  by (simp add: str_encode_def utf8_encode_char_def)

lemma get_matching_words_single:
  assumes "s \<in> set (get_matching_words self w [w] add_space)"
  shows "\<exists>word. s = 0x20 # word @ (if add_space then [0x20] else [])
           \<and> prefix w word \<and> word \<in> set (all_words self)"
proof -
  have sub: "set (sort_with_frequencies self (filter (prefix w) (all_words self)))
               \<subseteq> {word \<in> set (all_words self). prefix w word}"
  proof -
    have "set_mset (mset (sort_with_frequencies self (filter (prefix w) (all_words self))))
            \<subseteq> set (filter (prefix w) (all_words self))"
      unfolding sort_with_frequencies_eq mset_map mset_rev mset_sort by auto
    then show ?thesis by auto
  qed
  from assms sub show ?thesis
    by (auto simp: get_matching_words_def Let_def split: if_splits)
qed

text \<open>
  C10. When the decoded stream splits into exactly one token \<open>w\<close>, every sentence
  that \<^verbatim>\<open>match_sentence\<close> proposes is a space followed by a corpus word completing
  \<open>w\<close> (and a trailing space when asked for). The key derived from such a
  sentence and any non-empty ciphertext therefore decodes that ciphertext to a
  text whose byte at offset 0 is the space, not the first byte of the word.
\<close>

theorem single_token_completion_starts_with_space:
  assumes "str_split (decode_ignore stream) = [w]"
      and "match_sentence self stream strict add_space = Some sentences"
      and "s \<in> set sentences"
  shows "(\<exists>word. s = 0x20 # word @ (if add_space then [0x20] else [])
            \<and> prefix w word \<and> word \<in> set (all_words self))
         \<and> (\<forall>c cs. \<exists>rest.
              returned (xor_key_text (returned (xor_key_text (c # cs) (str_encode s))) (c # cs))
                = 0x20 # rest)"
proof -
  from assms(1,2) have "sentences = get_matching_words self w [w] add_space"
    by (auto simp: match_sentence_def Let_def split: if_splits)
  with assms(3) have 1: "\<exists>word. s = 0x20 # word @ (if add_space then [0x20] else [])
           \<and> prefix w word \<and> word \<in> set (all_words self)"
    using get_matching_words_single by blast
  then obtain r where "s = 0x20 # r" by auto
  then have "\<forall>c cs. \<exists>rest.
              returned (xor_key_text (returned (xor_key_text (c # cs) (str_encode s))) (c # cs))
                = 0x20 # rest"
    by (simp add: str_encode_space xor.assoc xor.commute)
  with 1 show ?thesis by blast
qed

theorem single_token_completion_starts_with_space_witness:
  "str_split (decode_ignore (ascii ''th'')) = [chars ''th'']
   \<and> match_sentence brown_sample (ascii ''th'') False True = Some [chars '' the '']
   \<and> chars '' the '' = 0x20 # chars ''the'' @ [0x20]
   \<and> (\<exists>rest. returned (xor_key_text (returned (xor_key_text [0x07, 0x0D, 0x06, 0x52]
                 (str_encode (chars '' the '')))) [0x07, 0x0D, 0x06, 0x52]) = 0x20 # rest)"
proof -
  have a: "str_split (decode_ignore (ascii ''th'')) = [chars ''th'']"
    by (simp add: ascii_def chars_def str_split_def isspace_def)
  have b: "match_sentence brown_sample (ascii ''th'') False True = Some [chars '' the '']"
    by (simp add: match_sentence_def get_matching_words_def sort_with_frequencies_def
          brown_sample_def word_freq_def chars_def ascii_lower_def ascii_def str_split_def
          isspace_def string_punctuation_def)
  have c: "chars '' the '' \<in> set [chars '' the '']" by simp
  from single_token_completion_starts_with_space [OF a b c] a b
  show ?thesis by (simp add: chars_def)
qed

section \<open>KeyCandidateGenerator\<close>

subsection \<open>\<^verbatim>\<open>filter_streams\<close>\<close>

text \<open>
  The test that \<^verbatim>\<open>filter_streams\<close> applies to one key and one text: the decoded
  text is a sentence of corpus words and, when \<^verbatim>\<open>strict == 2\<close>, holds no forbidden
  punctuation.
\<close>

definition accepts :: "word_finder \<Rightarrow> nat \<Rightarrow> bytes \<Rightarrow> bytes \<Rightarrow> bool" where
  "accepts self strict key text =
     (let decoded_text = returned (xor_key_text key text) in
      if check_sentence self decoded_text True then
        if strict = 2 then extra_strict_check decoded_text else True
      else False)"

text \<open>
  The two nested loops append the key and the decoded text once for every pair
  of a key and a text that passes. The result is
  \<^verbatim>\<open>(valid_results, valid_keys)\<close>.
\<close>

definition filter_streams ::
  "word_finder \<Rightarrow> bytes list \<Rightarrow> bytes list \<Rightarrow> nat \<Rightarrow> bytes list \<times> bytes list" where
  "filter_streams self key_list text_list strict =
     (let valid =
            concat (map (\<lambda>key.
              concat (map (\<lambda>text.
                let decoded_text = returned (xor_key_text key text) in
                if check_sentence self decoded_text True then
                  if strict = 2 then
                    if extra_strict_check decoded_text then [(key, decoded_text)] else []
                  else [(key, decoded_text)]
                else []) text_list)) key_list)
      in (map snd valid, map fst valid))"

subsection \<open>\<^verbatim>\<open>collections.Counter\<close>\<close>

text \<open>
  A \<^verbatim>\<open>Counter\<close> is a dictionary, which iterates in the order in which its keys
  were first inserted: an association list with distinct keys.
\<close>

type_synonym 'k counter = "('k \<times> nat) list"

fun counter_incr :: "'k \<Rightarrow> 'k counter \<Rightarrow> 'k counter" where
  "counter_incr k [] = [(k, 1)]"
| "counter_incr k ((k', n) # c) =
     (if k' = k then (k', n + 1) # c else (k', n) # counter_incr k c)"

text \<open>\<^verbatim>\<open>c.update(keys)\<close>: one increment for every element of the list.\<close>

definition counter_update :: "'k counter \<Rightarrow> 'k list \<Rightarrow> 'k counter" where
  "counter_update c ks = fold counter_incr ks c"

text \<open>\<^verbatim>\<open>c[k] = v\<close>: the entry keeps its place, a new key goes last.\<close>

fun counter_set :: "'k \<Rightarrow> nat \<Rightarrow> 'k counter \<Rightarrow> 'k counter" where
  "counter_set k v [] = [(k, v)]"
| "counter_set k v ((k', n) # c) =
     (if k' = k then (k', v) # c else (k', n) # counter_set k v c)"

text \<open>\<^verbatim>\<open>del c[k]\<close> for a key that is present.\<close>

definition counter_del :: "'k \<Rightarrow> 'k counter \<Rightarrow> 'k counter" where
  "counter_del k c = filter (\<lambda>(k', n). k' \<noteq> k) c"

text \<open>\<^verbatim>\<open>c[k]\<close> on a Counter: 0 for a missing key.\<close>

definition counter_get :: "'k counter \<Rightarrow> 'k \<Rightarrow> nat" where
  "counter_get c k = (case map_of c k of Some n \<Rightarrow> n | None \<Rightarrow> 0)"

subsection \<open>\<^verbatim>\<open>identify_potential_keys\<close>\<close>

datatype key_result = Key bytes | Keys "bytes list"

text \<open>The keys a result proposes.\<close>

fun proposed :: "key_result \<Rightarrow> bytes list" where
  "proposed (Key k) = [k]"
| "proposed (Keys ks) = ks"

text \<open>
  The candidate keys of one stream: the sentences completing its last word,
  each encoded and combined with the ciphertext the stream came from. The list
  is empty when \<^verbatim>\<open>match_sentence\<close> returns \<^verbatim>\<open>None\<close> or no sentence.
\<close>

definition keystreams_of ::
  "word_finder \<Rightarrow> bytes list \<Rightarrow> bool \<Rightarrow> nat \<times> bytes \<Rightarrow> bytes list" where
  "keystreams_of self filtered_texts add_space = (\<lambda>(i, stream).
     case match_sentence self stream False add_space of
       None \<Rightarrow> []
     | Some matched_sentences \<Rightarrow>
         if matched_sentences = [] then []
         else xor_key_text_list (filtered_texts ! i) (map str_encode matched_sentences))"

text \<open>The tallying loop over \<^verbatim>\<open>enumerate(potential_stream)\<close>.\<close>

definition count_keys ::
  "word_finder \<Rightarrow> bytes list \<Rightarrow> bytes list \<Rightarrow> nat \<Rightarrow> bool \<Rightarrow> bytes counter" where
  "count_keys self filtered_texts potential_stream strict_filter add_space =
     fold (\<lambda>(i, stream) counted_keys.
             case match_sentence self stream False add_space of
               None \<Rightarrow> counted_keys
             | Some matched_sentences \<Rightarrow>
                 if matched_sentences = [] then counted_keys
                 else
                   let keystreams =
                         xor_key_text_list (filtered_texts ! i)
                           (map str_encode matched_sentences)
                   in case filter_streams self keystreams filtered_texts strict_filter of
                        (results, new_keys) \<Rightarrow> counter_update counted_keys new_keys)
          (enumerate 0 potential_stream) []"

text \<open>
  The candidates that survive: the tally with the entry of \<open>target_key\<close> set to 0,
  and removed when \<^verbatim>\<open>strict_filter == 0\<close>, filtered by a true result of
  \<^verbatim>\<open>check_potential_stream\<close>.
\<close>

definition surviving_keys ::
  "bytes \<Rightarrow> bytes list \<Rightarrow> nat \<Rightarrow> bytes counter \<Rightarrow> bytes list" where
  "surviving_keys target_key filtered_texts strict_filter counted_keys =
     (let counted_keys = counter_set target_key 0 counted_keys;
          counted_keys =
            (if strict_filter = 0 \<and> target_key \<in> set (map fst counted_keys)
             then counter_del target_key counted_keys else counted_keys)
      in filter (\<lambda>key. truthy (check_potential_stream key filtered_texts (strict_filter \<noteq> 0)))
           (map fst counted_keys))"

text \<open>
  The value of \<^verbatim>\<open>new_target_keys\<close> in a call, from the call's arguments; no
  candidate when the first \<^verbatim>\<open>check_potential_stream\<close> fails and the call returns
  the empty list.
\<close>

definition surviving_candidates ::
  "word_finder \<Rightarrow> bytes \<Rightarrow> bytes list \<Rightarrow> nat \<Rightarrow> bool \<Rightarrow> bytes list" where
  "surviving_candidates self target_key target_texts strict_filter add_space =
     (let filtered_texts = filter (\<lambda>text. length target_key < length text) target_texts in
      case check_potential_stream target_key filtered_texts (strict_filter \<noteq> 0) of
        None \<Rightarrow> []
      | Some potential_stream \<Rightarrow>
          surviving_keys target_key filtered_texts strict_filter
            (count_keys self filtered_texts potential_stream strict_filter add_space))"

text \<open>
  \<^verbatim>\<open>identify_potential_keys\<close>. Index 0 of the sorted list would raise IndexError on
  an empty list.
\<close>

definition identify_potential_keys ::
  "word_finder \<Rightarrow> bytes \<Rightarrow> bytes list \<Rightarrow> nat \<Rightarrow> bool \<Rightarrow> py_error + key_result" where
  "identify_potential_keys self target_key target_texts strict_filter add_space =
     (let filtered_texts = filter (\<lambda>text. length target_key < length text) target_texts in
      case check_potential_stream target_key filtered_texts (strict_filter \<noteq> 0) of
        None \<Rightarrow> Inr (Keys [])
      | Some potential_stream \<Rightarrow>
          let counted_keys =
                count_keys self filtered_texts potential_stream strict_filter add_space;
              new_target_keys =
                surviving_keys target_key filtered_texts strict_filter counted_keys
          in if verify_substring_keys new_target_keys then
               (case sorted_by_len_rev new_target_keys of
                  [] \<Rightarrow> Inl IndexError
                | k # _ \<Rightarrow> Inr (Key k))
             else Inr (Keys new_target_keys))"

lemma bytes_in_sublist: "bytes_in sub s = sublist sub s"
  by (induction s) (simp_all add: sublist_Cons_right)

lemma min_by_len_in: "min_by_len m ks \<in> set (m # ks)"
  by (induction ks arbitrary: m) auto

lemma min_by_len_le_start: "length (min_by_len m ks) \<le> length m"
proof (induction ks arbitrary: m)
  case Nil
  show ?case by simp
next
  case (Cons a ks)
  from Cons [of "if length a < length m then a else m"] show ?case
    by (simp split: if_splits)
qed

lemma min_by_len_le_rest: "k \<in> set ks \<Longrightarrow> length (min_by_len m ks) \<le> length k"
proof (induction ks arbitrary: m)
  case Nil
  then show ?case by simp
next
  case (Cons a ks)
  show ?case
  proof (cases "k = a")
    case True
    with min_by_len_le_start [of "if length a < length m then a else m" ks] show ?thesis
      by (simp split: if_splits)
  next
    case False
    with Cons.prems have "k \<in> set ks" by simp
    from Cons.IH [OF this] show ?thesis by simp
  qed
qed

lemma min_by_len_le: "k \<in> set (m # ks) \<Longrightarrow> length (min_by_len m ks) \<le> length k"
  using min_by_len_le_start min_by_len_le_rest by auto

lemma sublist_same_length: "sublist s t \<Longrightarrow> length s = length t \<Longrightarrow> s = t"
  by (auto simp: sublist_def)

lemma verify_substring_keys_iff:
  "verify_substring_keys S \<longleftrightarrow>
     (\<exists>s \<in> set S. \<forall>k \<in> set S. length s \<le> length k \<and> sublist s k)"
proof (cases S)
  case Nil
  then show ?thesis by (simp add: verify_substring_keys_def)
next
  case (Cons m ks)
  let ?s0 = "min_by_len m ks"
  have in0: "?s0 \<in> set S" using min_by_len_in [of m ks] Cons by simp
  have le0: "\<forall>k \<in> set S. length ?s0 \<le> length k" using min_by_len_le [of _ m ks] Cons by simp
  have v: "verify_substring_keys S \<longleftrightarrow> (\<forall>k \<in> set S. sublist ?s0 k)"
    using Cons by (simp add: verify_substring_keys_def Let_def list_all_iff bytes_in_sublist)
  show ?thesis
  proof
    assume "verify_substring_keys S"
    with v in0 le0 show "\<exists>s \<in> set S. \<forall>k \<in> set S. length s \<le> length k \<and> sublist s k"
      by blast
  next
    assume "\<exists>s \<in> set S. \<forall>k \<in> set S. length s \<le> length k \<and> sublist s k"
    then obtain s where s: "s \<in> set S" "\<forall>k \<in> set S. length s \<le> length k \<and> sublist s k"
      by blast
    from s in0 le0 have "sublist s ?s0" "length s = length ?s0"
      by (auto simp: le_antisym)
    then have "s = ?s0" by (rule sublist_same_length)
    with s v show "verify_substring_keys S" by blast
  qed
qed

lemma sorted_by_len_rev_hd:
  assumes "S \<noteq> []"
  shows "\<exists>k rest. sorted_by_len_rev S = k # rest \<and> k \<in> set S
           \<and> (\<forall>k' \<in> set S. length k' \<le> length k)"
proof -
  let ?ys = "sort_key length (rev S)"
  have ne: "?ys \<noteq> []" using assms by (metis length_sort length_rev length_0_conv)
  have srt: "sorted (map length ?ys)" by (rule sorted_sort_key)
  have "\<forall>k' \<in> set ?ys. length k' \<le> length (last ?ys)"
  proof
    fix k' assume "k' \<in> set ?ys"
    then obtain i where i: "i < length ?ys" "?ys ! i = k'" by (metis in_set_conv_nth)
    with srt ne have "map length ?ys ! i \<le> map length ?ys ! (length ?ys - 1)"
      by (intro sorted_nth_mono) auto
    with i ne show "length k' \<le> length (last ?ys)" by (simp add: last_conv_nth)
  qed
  moreover have "last ?ys \<in> set ?ys" using ne by (rule last_in_set)
  moreover have "sorted_by_len_rev S = last ?ys # rev (butlast ?ys)"
    using ne by (simp add: sorted_by_len_rev_def rev_eq_Cons_iff)
  ultimately show ?thesis by auto
qed

lemma identify_potential_keys_unfold:
  "identify_potential_keys self target_key target_texts strict_filter add_space =
     (let S = surviving_candidates self target_key target_texts strict_filter add_space in
      if verify_substring_keys S then
        (case sorted_by_len_rev S of [] \<Rightarrow> Inl IndexError | k # _ \<Rightarrow> Inr (Key k))
      else Inr (Keys S))"
proof (cases "check_potential_stream target_key
                (filter (\<lambda>text. length target_key < length text) target_texts)
                (strict_filter \<noteq> 0)")
  case None
  then show ?thesis
    by (simp add: identify_potential_keys_def surviving_candidates_def verify_substring_keys_def)
next
  case (Some ps)
  then show ?thesis
    by (simp add: identify_potential_keys_def surviving_candidates_def Let_def)
qed

subsection \<open>Properties of the generator\<close>

text \<open>A two-word corpus for the examples.\<close>

definition W1 :: word_finder where
  "W1 = \<lparr>all_words = [chars ''01'', chars ''aqr''],
         freq_dist = map_of [(chars ''01'', 3), (chars ''aqr'', 2)],
         py_lower = ascii_lower\<rparr>"

lemma counter_set_has_key: "k \<in> fst ` set (counter_set k v c)"
  by (induction c) (force split: if_splits)+

lemma counter_del_no_key: "k \<notin> fst ` set (counter_del k c)"
  by (auto simp: counter_del_def)

lemma surviving_keys_strict0: "target_key \<notin> set (surviving_keys target_key texts 0 c)"
  using counter_set_has_key [of target_key 0 c] counter_del_no_key [of target_key]
  by (simp add: surviving_keys_def Let_def)

lemma surviving_candidates_strict0:
  "target_key \<notin> set (surviving_candidates self target_key target_texts 0 add_space)"
  by (simp add: surviving_candidates_def Let_def surviving_keys_strict0 split: option.splits)

lemma identify_potential_keys_cases:
  fixes self target_key target_texts strict_filter add_space
  defines "S \<equiv> surviving_candidates self target_key target_texts strict_filter add_space"
  shows "(verify_substring_keys S \<and>
           (\<exists>k \<in> set S. (\<forall>k' \<in> set S. length k' \<le> length k) \<and>
              identify_potential_keys self target_key target_texts strict_filter add_space
                = Inr (Key k)))
         \<or> (\<not> verify_substring_keys S \<and>
              identify_potential_keys self target_key target_texts strict_filter add_space
                = Inr (Keys S))"
proof (cases "verify_substring_keys S")
  case True
  then have "S \<noteq> []" by (auto simp: verify_substring_keys_def)
  from sorted_by_len_rev_hd [OF this] obtain k rest where
    "sorted_by_len_rev S = k # rest" "k \<in> set S" "\<forall>k' \<in> set S. length k' \<le> length k"
    by blast
  with True show ?thesis
    unfolding S_def by (auto simp: identify_potential_keys_unfold Let_def)
next
  case False
  then show ?thesis
    unfolding S_def by (simp add: identify_potential_keys_unfold Let_def)
qed


text \<open>The ciphertexts of two plaintexts under the key \<^verbatim>\<open>key1234\<close>.\<close>

definition ct_the_cat :: bytes where
  "ct_the_cat = returned (xor_key_text (ascii ''key1234'') (ascii ''the cat''))"

definition ct_of_the :: bytes where
  "ct_of_the = returned (xor_key_text (ascii ''key1234'') (ascii ''of the''))"


lemmas eval_defs =
  identify_potential_keys_def surviving_candidates_def surviving_keys_def count_keys_def
  filter_streams_def counter_update_def counter_del_def counter_get_def
  check_potential_stream_def truthy_def verify_substring_keys_def sorted_by_len_rev_def
  xor_key_text_list_eq check_sentence_def check_ascii_str_def check_ascii_iff
  in_string_printable extra_strict_check_def forbidden_chars_def accepts_def keystreams_of_def
  match_sentence_def get_matching_words_def sort_with_frequencies_def word_freq_def
  chars_def ascii_lower_def ascii_def str_split_def str_encode_def utf8_encode_char_def
  isspace_def in_string_punctuation Let_def enumerate_eq_zip

lemma ct_the_cat_bytes: "ct_the_cat = [0x1F, 0x0D, 0x1C, 0x11, 0x51, 0x52, 0x40]"
  by (simp add: ct_the_cat_def ascii_def)

lemma ct_of_the_bytes: "ct_of_the = [0x04, 0x03, 0x59, 0x45, 0x5A, 0x56]"
  by (simp add: ct_of_the_def ascii_def)



lemma W1_candidates:
  "surviving_candidates W1 [0, 0] [ascii ''01b'', ascii ''aqp!''] 0 False
     = [[0x10, 0x01, 0x53], [0x41, 0x10, 0x01, 0x53]]"
  by (simp add: eval_defs W1_def)

lemma brown_candidates:
  "surviving_candidates brown_sample (ascii ''key'') [ct_the_cat, ct_of_the] 0 True
     = [[0x3F, 0x79, 0x74, 0x74, 0x71], [0x24, 0x6C, 0x3F, 0x65]]"
  by (simp add: eval_defs ct_the_cat_bytes ct_of_the_bytes brown_sample_def)



lemma filter_streams_keys_of_one:
  "map fst (concat (map (\<lambda>text.
      if check_sentence self (returned (xor_key_text key text)) True then
        if strict = 2 then
          if extra_strict_check (returned (xor_key_text key text))
          then [(key, returned (xor_key_text key text))] else []
        else [(key, returned (xor_key_text key text))]
      else []) ts))
   = replicate (length (filter (accepts self strict key) ts)) key"
  by (induction ts) (simp_all add: accepts_def Let_def del: returned_xor)

lemma filter_streams_keys:
  "snd (filter_streams self key_list text_list strict) =
     concat (map (\<lambda>key. replicate (length (filter (accepts self strict key) text_list)) key)
               key_list)"
  unfolding filter_streams_def Let_def snd_conv
  by (induction key_list)
     (simp_all add: filter_streams_keys_of_one del: map_concat returned_xor)

lemma count_list_replicate: "count_list (replicate n a) k = (if a = k then n else 0)"
  by (induction n) auto

lemma count_list_replicate_keys:
  "count_list (concat (map (\<lambda>key. replicate (n key) key) keys)) k = count_list keys k * n k"
  by (induction keys) (simp_all add: count_list_replicate)

lemma counter_get_incr:
  "counter_get (counter_incr k c) k' = counter_get c k' + (if k' = k then 1 else 0)"
  by (induction c) (auto simp: counter_get_def)

lemma counter_get_update:
  "counter_get (counter_update c ks) k = counter_get c k + count_list ks k"
  unfolding counter_update_def
  by (induction ks arbitrary: c) (auto simp: counter_get_incr)

lemma count_keys_step:
  "counter_get
     ((\<lambda>(i, stream) counted_keys.
             case match_sentence self stream False add_space of
               None \<Rightarrow> counted_keys
             | Some matched_sentences \<Rightarrow>
                 if matched_sentences = [] then counted_keys
                 else
                   let keystreams =
                         xor_key_text_list (filtered_texts ! i)
                           (map str_encode matched_sentences)
                   in case filter_streams self keystreams filtered_texts strict_filter of
                        (results, new_keys) \<Rightarrow> counter_update counted_keys new_keys) p c) k
   = counter_get c k
     + count_list (keystreams_of self filtered_texts add_space p) k
       * length (filter (accepts self strict_filter k) filtered_texts)"
proof -
  obtain i stream where p: "p = (i, stream)" by (cases p)
  have fs: "(case filter_streams self ks filtered_texts strict_filter of
              (results, new_keys) \<Rightarrow> counter_update c new_keys)
            = counter_update c (snd (filter_streams self ks filtered_texts strict_filter))" for ks
    by (simp add: case_prod_unfold)
  show ?thesis
    unfolding p
    by (simp add: keystreams_of_def Let_def fs counter_get_update filter_streams_keys
          count_list_replicate_keys split: option.splits)
qed

lemma count_keys_fold:
  "counter_get
     (fold (\<lambda>(i, stream) counted_keys.
             case match_sentence self stream False add_space of
               None \<Rightarrow> counted_keys
             | Some matched_sentences \<Rightarrow>
                 if matched_sentences = [] then counted_keys
                 else
                   let keystreams =
                         xor_key_text_list (filtered_texts ! i)
                           (map str_encode matched_sentences)
                   in case filter_streams self keystreams filtered_texts strict_filter of
                        (results, new_keys) \<Rightarrow> counter_update counted_keys new_keys) ps c) k
   = counter_get c k
     + count_list (concat (map (keystreams_of self filtered_texts add_space) ps)) k
       * length (filter (accepts self strict_filter k) filtered_texts)"
proof (induction ps arbitrary: c)
  case Nil
  show ?case by simp
next
  case (Cons p ps)
  show ?case
    unfolding fold_Cons comp_def Cons.IH count_keys_step
    by (simp add: count_list_append add_mult_distrib)
qed



section \<open>CribDragSession\<close>

subsection \<open>The oracle\<close>

text \<open>
  The oracle is the list of its future replies. A call of \<^verbatim>\<open>input\<close> takes the
  first: a line, or an interrupt (KeyboardInterrupt); with no reply left it
  raises EOFError.
\<close>

datatype reply = Interrupt | Line str

definition py_input :: "reply list \<Rightarrow> (py_error + str) \<times> reply list" where
  "py_input ins =
     (case ins of
        [] \<Rightarrow> (Inl EOFError, [])
      | Interrupt # r \<Rightarrow> (Inl KeyboardInterrupt, r)
      | Line s # r \<Rightarrow> (Inr s, r))"

text \<open>
  \<^verbatim>\<open>int(s)\<close> on a \<^verbatim>\<open>str\<close> is a built-in of the interpreter: its rules for
  whitespace, sign and underscores, the decimal digits of every script that it
  reads from the Unicode database, and its limit on the number of digits are no
  part of the source. The functions that call it take it as a parameter
  \<open>int_of\<close>, where \<open>None\<close> is the ValueError; the theorems hold for any such
  function.

  For the examples: \<^verbatim>\<open>int\<close> on a reply that is one ASCII digit. No example gives
  another reply where an index is asked for.
\<close>

definition int_of_digit :: "str \<Rightarrow> int option" where
  "int_of_digit s =
     (case s of
        [c] \<Rightarrow> if 0x30 \<le> c \<and> c \<le> 0x39 then Some (int c - 0x30) else None
      | _ \<Rightarrow> None)"

text \<open>\<^verbatim>\<open>xs[i]\<close>: a negative index counts from the end, out of range is IndexError.\<close>

definition py_index :: "'a list \<Rightarrow> int \<Rightarrow> py_error + 'a" where
  "py_index xs i =
     (let n = int (length xs);
          j = (if i < 0 then n + i else i)
      in if 0 \<le> j \<and> j < n then Inr (xs ! nat j) else Inl IndexError)"

text \<open>\<^verbatim>\<open>s.encode()\<close> of raw input: a lone surrogate is a UnicodeEncodeError.\<close>

definition str_encode_checked :: "str \<Rightarrow> py_error + bytes" where
  "str_encode_checked s =
     (if list_ex (\<lambda>c. 0xD800 \<le> c \<and> c \<le> 0xDFFF) s then Inl UnicodeEncodeError
      else Inr (str_encode s))"

text \<open>\<^verbatim>\<open>result[:1].lower() in ['1', 'y']\<close>, with the interpreter's \<^verbatim>\<open>str.lower\<close>.\<close>

definition says_yes :: "word_finder \<Rightarrow> str \<Rightarrow> bool" where
  "says_yes self result = (py_lower self (take 1 result) \<in> set [chars ''1'', chars ''y''])"

text \<open>
  The places where a key decodes ciphertexts during a session, recorded in the
  order in which they happen: the arguments of a call of the generator, the
  texts \<^verbatim>\<open>get_input_key\<close> decodes with the current key, a proposed key shown to
  the oracle or checked, and the cleaning step.
\<close>

datatype event =
  Generate bytes "bytes list"
  | Manual bytes "bytes list"
  | Propose bytes "bytes list"
  | Clean bytes "bytes list"

subsection \<open>\<^verbatim>\<open>get_input_key\<close>\<close>

text \<open>The body of the \<^verbatim>\<open>try\<close> block.\<close>

definition get_input_key_try ::
  "(str \<Rightarrow> int option) \<Rightarrow> bytes \<Rightarrow> bytes list \<Rightarrow> reply list
     \<Rightarrow> (py_error + bytes) \<times> reply list \<times> event list" where
  "get_input_key_try int_of target_key set_text ins =
     (case py_input ins of
        (Inl e, r) \<Rightarrow> (Inl e, r, [])
      | (Inr line, r) \<Rightarrow>
     (case int_of line of
        None \<Rightarrow> (Inl ValueError, r, [])
      | Some potential_key_id \<Rightarrow>
     (case py_input r of
        (Inl e, r') \<Rightarrow> (Inl e, r', [])
      | (Inr new_text, r') \<Rightarrow>
     (case str_encode_checked new_text of
        Inl e \<Rightarrow> (Inl e, r', [])
      | Inr new_text_bytes \<Rightarrow>
          if \<not> check_ascii new_text_bytes then (Inl AssertionError, r', [])
          else
     (case py_index set_text potential_key_id of
        Inl e \<Rightarrow> (Inl e, r', [])
      | Inr text \<Rightarrow>
          let new_key = returned (xor_key_text new_text_bytes text) in
          if truthy (check_potential_stream new_key set_text False)
          then (Inr new_key, r', [Propose new_key set_text])
          else (Inr target_key, r', [Propose new_key set_text]))))))"

text \<open>
  \<^verbatim>\<open>get_input_key\<close>: both handlers, for KeyboardInterrupt and for any other
  exception, return \<open>target_key\<close>.
\<close>

definition get_input_key ::
  "(str \<Rightarrow> int option) \<Rightarrow> bytes \<Rightarrow> bytes list \<Rightarrow> reply list
     \<Rightarrow> bytes \<times> reply list \<times> event list" where
  "get_input_key int_of target_key target_texts ins =
     (let set_text = filter (\<lambda>x. length target_key < length x) target_texts;
          xored_text = xor_key_text_list target_key set_text
      in case get_input_key_try int_of target_key set_text ins of
           (Inr new_key, r, ev) \<Rightarrow> (new_key, r, Manual target_key set_text # ev)
         | (Inl KeyboardInterrupt, r, ev) \<Rightarrow> (target_key, r, Manual target_key set_text # ev)
         | (Inl e, r, ev) \<Rightarrow> (target_key, r, Manual target_key set_text # ev))"

lemma get_input_key_try_cases:
  assumes "get_input_key_try int_of target_key set_text ins = (res, r, ev)"
  shows "(\<exists>e. res = Inl e) \<or> res = Inr target_key
         \<or> (\<exists>line new_text rest i text.
               ins = Line line # Line new_text # rest \<and> int_of line = Some i
               \<and> check_ascii (str_encode new_text) \<and> py_index set_text i = Inr text
               \<and> list_all (\<lambda>ct. check_ascii
                     (returned (xor_key_text
                        (returned (xor_key_text (str_encode new_text) text)) ct))) set_text
               \<and> res = Inr (returned (xor_key_text (str_encode new_text) text)))"
  using assms
  unfolding get_input_key_try_def py_input_def str_encode_checked_def Let_def truthy_def
    check_potential_stream_def xor_key_text_list_def
  by (auto simp: list_all_iff split: list.splits reply.splits sum.splits option.splits if_splits)
     metis+

text \<open>
  C4. The key that \<^verbatim>\<open>get_input_key\<close> returns is the prior key, unless the oracle
  gave an index and a fragment, \<^verbatim>\<open>int\<close> reads the index and it selects one of the
  filtered ciphertexts, the fragment is printable ASCII, and the key derived from
  the two passes the non-strict validation (every filtered ciphertext decodes to
  printable ASCII); only then is the derived key returned. In every other case,
  an interrupt included, the prior key comes back unchanged. This holds whatever
  strings \<^verbatim>\<open>int\<close> accepts.
\<close>

theorem get_input_key_prior_or_validated:
  "fst (get_input_key int_of target_key target_texts ins) = target_key
   \<or> (\<exists>line new_text rest i text.
         ins = Line line # Line new_text # rest \<and> int_of line = Some i
         \<and> check_ascii (str_encode new_text)
         \<and> py_index (filter (\<lambda>x. length target_key < length x) target_texts) i = Inr text
         \<and> list_all (\<lambda>ct. check_ascii
               (returned (xor_key_text
                  (fst (get_input_key int_of target_key target_texts ins)) ct)))
             (filter (\<lambda>x. length target_key < length x) target_texts)
         \<and> fst (get_input_key int_of target_key target_texts ins)
             = returned (xor_key_text (str_encode new_text) text))"
proof -
  let ?S = "filter (\<lambda>x. length target_key < length x) target_texts"
  obtain res r ev where t: "get_input_key_try int_of target_key ?S ins = (res, r, ev)"
    by (cases "get_input_key_try int_of target_key ?S ins")
  from get_input_key_try_cases [OF t] show ?thesis
    by (auto simp: get_input_key_def t Let_def split: py_error.splits)
qed

lemmas eval_session_defs =
  get_input_key_def get_input_key_try_def py_input_def int_of_digit_def py_index_def
  str_encode_checked_def says_yes_def

theorem get_input_key_prior_or_validated_witness:
  "fst (get_input_key int_of_digit (ascii ''key'') [ct_the_cat, ct_of_the]
          [Line (chars ''0''), Line (chars ''the cat'')]) = ascii ''key1234''
   \<and> fst (get_input_key int_of_digit (ascii ''key'') [ct_the_cat, ct_of_the]
          [Line (chars ''0''), Interrupt]) = ascii ''key''
   \<and> list_all (\<lambda>ct. check_ascii (returned (xor_key_text (ascii ''key1234'') ct)))
         [ct_the_cat, ct_of_the]"
proof -
  have a: "fst (get_input_key int_of_digit (ascii ''key'') [ct_the_cat, ct_of_the]
          [Line (chars ''0''), Line (chars ''the cat'')]) = ascii ''key1234''"
    by (simp add: eval_session_defs eval_defs ct_the_cat_bytes ct_of_the_bytes)
  have b: "fst (get_input_key int_of_digit (ascii ''key'') [ct_the_cat, ct_of_the]
          [Line (chars ''0''), Interrupt]) = ascii ''key''"
    by (simp add: eval_session_defs eval_defs ct_the_cat_bytes ct_of_the_bytes)
  have c: "ascii ''key1234'' \<noteq> ascii ''key''" by (simp add: ascii_def)
  from get_input_key_prior_or_validated
         [of int_of_digit "ascii ''key''" "[ct_the_cat, ct_of_the]"
             "[Line (chars ''0''), Line (chars ''the cat'')]"]
       a c
  have "list_all (\<lambda>ct. check_ascii (returned (xor_key_text (ascii ''key1234'') ct)))
         (filter (\<lambda>x. length (ascii ''key'') < length x) [ct_the_cat, ct_of_the])"
    by auto
  then have "list_all (\<lambda>ct. check_ascii (returned (xor_key_text (ascii ''key1234'') ct)))
         [ct_the_cat, ct_of_the]"
    by (simp add: ct_the_cat_bytes ct_of_the_bytes ascii_def)
  with a b show ?thesis by blast
qed

subsection \<open>The oracle's confirmations\<close>

text \<open>Python's truth value of a key that may be \<^verbatim>\<open>None\<close>: an empty key is false.\<close>

definition truthy_key :: "bytes option \<Rightarrow> bool" where
  "truthy_key k = (case k of None \<Rightarrow> False | Some b \<Rightarrow> b \<noteq> [])"

text \<open>
  \<^verbatim>\<open>validate_key\<close>. The key is \<^verbatim>\<open>None\<close> when \<^verbatim>\<open>get_new_keys\<close> found none; decoding
  a text with it is a TypeError.
\<close>

definition validate_key ::
  "word_finder \<Rightarrow> bytes option \<Rightarrow> bytes list \<Rightarrow> reply list
     \<Rightarrow> (py_error + bytes option) \<times> reply list \<times> event list" where
  "validate_key self target_key set_text ins =
     (case target_key of
        None \<Rightarrow>
          if set_text \<noteq> [] then (Inl TypeError, ins, [])
          else
            (case py_input ins of
               (Inl e, r) \<Rightarrow> (Inl e, r, [])
             | (Inr result, r) \<Rightarrow> (Inr None, r, []))
      | Some k \<Rightarrow>
          (case py_input ins of
             (Inl e, r) \<Rightarrow> (Inl e, r, [Propose k set_text])
           | (Inr result, r) \<Rightarrow>
               (Inr (if says_yes self result then Some k else None), r, [Propose k set_text])))"

text \<open>
  \<^verbatim>\<open>check_new_target_keys\<close>: the longest candidates are shown; the oracle picks
  one by index, or rejects them and gets the others back. \<^verbatim>\<open>max\<close> of an empty
  list is a ValueError; an interrupt returns the first candidate shown.
\<close>

definition check_new_target_keys ::
  "word_finder \<Rightarrow> (str \<Rightarrow> int option) \<Rightarrow> bytes list \<Rightarrow> bytes list \<Rightarrow> reply list
     \<Rightarrow> (py_error + key_result) \<times> reply list \<times> event list" where
  "check_new_target_keys self int_of new_target_keys set_text ins =
     (if new_target_keys = [] then (Inl ValueError, ins, [])
      else
        let max_length = fold max (map length new_target_keys) 0;
            small_keys = filter (\<lambda>x. length x = max_length) new_target_keys;
            ev = map (\<lambda>small_key. Propose small_key set_text) small_keys;
            interrupted = (case small_keys of k # _ \<Rightarrow> Key k | [] \<Rightarrow> Key (hd new_target_keys))
        in case py_input ins of
             (Inl e, r) \<Rightarrow>
               if e = KeyboardInterrupt then (Inr interrupted, r, ev) else (Inl e, r, ev)
           | (Inr result, r) \<Rightarrow>
               if result \<noteq> [] \<and> says_yes self result then
                 (case py_input r of
                    (Inl e, r') \<Rightarrow>
                      if e = KeyboardInterrupt then (Inr interrupted, r', ev)
                      else (Inl e, r', ev)
                  | (Inr line, r') \<Rightarrow>
                      (case int_of line of
                         None \<Rightarrow> (Inl ValueError, r', ev)
                       | Some result_idx \<Rightarrow>
                           (case py_index small_keys result_idx of
                              Inl e \<Rightarrow> (Inl e, r', ev)
                            | Inr k \<Rightarrow> (Inr (Key k), r', ev))))
               else
                 (Inr (Keys (filter (\<lambda>x. x \<notin> set small_keys) new_target_keys)), r, ev))"

lemma fold_max_attained:
  assumes "ks \<noteq> []"
  shows "\<exists>x \<in> set ks. length x = fold max (map length ks) 0"
proof -
  let ?m = "fold max (map length ks) 0"
  have m: "?m = Max (set (0 # map length ks))" by (rule Max.set_eq_fold [symmetric])
  then have "?m \<in> set (0 # map length ks)" using Max_in [of "set (0 # map length ks)"] by simp
  moreover have "\<forall>x \<in> set ks. length x \<le> ?m" unfolding m by (simp add: Max_ge_iff)
  ultimately show ?thesis using assms by (cases ks) force+
qed

lemma check_new_target_keys_shorter:
  assumes "check_new_target_keys self int_of ks set_text ins = (Inr (Keys ks'), r, ev)"
  shows "length ks' < length ks"
proof -
  from assms have ne: "ks \<noteq> []" by (auto simp: check_new_target_keys_def)
  from fold_max_attained [OF ne] obtain x where
    x: "x \<in> set ks" "length x = fold max (map length ks) 0" by blast
  let ?small = "filter (\<lambda>x. length x = fold max (map length ks) 0) ks"
  have nk: "(case xs of [] \<Rightarrow> Key a | k # _ \<Rightarrow> Key k) \<noteq> Keys ks'" for xs a
    by (simp split: list.splits)
  from assms ne have "ks' = filter (\<lambda>x. x \<notin> set ?small) ks"
    by (auto simp: check_new_target_keys_def Let_def nk
          split: prod.splits sum.splits option.splits if_splits)
  moreover have "length (filter (\<lambda>x. x \<notin> set ?small) ks) < length ks"
    by (rule length_filter_less [OF x(1)]) (simp add: x)
  ultimately show ?thesis by simp
qed

text \<open>
  \<^verbatim>\<open>get_new_keys\<close>: the loop runs while the oracle's answer is a list and ends with
  \<^verbatim>\<open>None\<close> when the answer is empty.
\<close>

function get_new_keys_loop ::
  "word_finder \<Rightarrow> (str \<Rightarrow> int option) \<Rightarrow> bytes list \<Rightarrow> bytes list \<Rightarrow> reply list
     \<Rightarrow> (py_error + bytes option) \<times> reply list \<times> event list" where
  "get_new_keys_loop self int_of new_keys set_text ins =
     (case check_new_target_keys self int_of new_keys set_text ins of
        (Inl e, r, ev) \<Rightarrow> (Inl e, r, ev)
      | (Inr (Key k), r, ev) \<Rightarrow> if k = [] then (Inr None, r, ev) else (Inr (Some k), r, ev)
      | (Inr (Keys ks), r, ev) \<Rightarrow>
          if ks = [] then (Inr None, r, ev)
          else
            (case get_new_keys_loop self int_of ks set_text r of
               (res, r', ev') \<Rightarrow> (res, r', ev @ ev')))"
  by pat_completeness auto
termination
  apply (relation "measure (\<lambda>(self, int_of, new_keys, set_text, ins). length new_keys)")
   apply simp
  apply clarsimp
  apply (erule check_new_target_keys_shorter [OF sym])
  done

declare get_new_keys_loop.simps [simp del]

definition get_new_keys ::
  "word_finder \<Rightarrow> (str \<Rightarrow> int option) \<Rightarrow> key_result \<Rightarrow> bytes list \<Rightarrow> reply list
     \<Rightarrow> (py_error + bytes option) \<times> reply list \<times> event list" where
  "get_new_keys self int_of new_target_keys set_text ins =
     (case new_target_keys of
        Key k \<Rightarrow> (Inr (Some k), ins, [])
      | Keys ks \<Rightarrow> get_new_keys_loop self int_of ks set_text ins)"

subsection \<open>Cleaning\<close>

definition get_invalid_idxs :: "bytes list \<Rightarrow> nat list" where
  "get_invalid_idxs xored_outputs =
     map fst (filter (\<lambda>(i, out). \<not> check_ascii out \<or> \<not> extra_strict_check out)
                (enumerate 0 xored_outputs))"

text \<open>\<^verbatim>\<open>check_and_remove_invalid_chars\<close>, returning \<^verbatim>\<open>(set_text, invalid_pts)\<close>.\<close>

definition check_and_remove_invalid_chars ::
  "word_finder \<Rightarrow> bytes \<Rightarrow> bytes list \<Rightarrow> reply list
     \<Rightarrow> (py_error + bytes list \<times> bytes list) \<times> reply list \<times> event list" where
  "check_and_remove_invalid_chars self target_key set_text ins =
     (let xored_outputs = xor_key_text_list target_key set_text;
          invalid_ids = get_invalid_idxs xored_outputs;
          ev = [Clean target_key set_text]
      in if invalid_ids \<noteq> [] then
           (case py_input ins of
              (Inl e, r) \<Rightarrow> (Inl e, r, ev)
            | (Inr choice, r) \<Rightarrow>
                if says_yes self choice then
                  (Inr (map snd (filter (\<lambda>(i, x). i \<notin> set invalid_ids) (enumerate 0 set_text)),
                        map (\<lambda>i. set_text ! i) invalid_ids), r, ev)
                else (Inr (set_text, []), r, ev))
         else (Inr (set_text, []), ins, ev))"

subsection \<open>One iteration of \<^verbatim>\<open>interactive_crib_dragging\<close>\<close>

text \<open>
  The variables that the body of the loop assigns: \<^verbatim>\<open>my_new_key\<close>, \<^verbatim>\<open>my_new_key_\<close>,
  \<^verbatim>\<open>set_text\<close> and \<^verbatim>\<open>self.invalid_pts\<close>. A block of the body takes them and the
  oracle's replies and returns the exception it raised, if any, with the
  variables as they were at that moment.
\<close>

record locals =
  v_my_new_key :: "bytes option"
  v_my_new_key_in :: "bytes option"
  v_set_text :: "bytes list"
  v_invalid_pts :: "bytes list"

text \<open>
  The three statements that follow every assignment of \<^verbatim>\<open>my_new_key_\<close>: the
  oracle validates it, and a key that it confirms goes through the cleaning
  step.
\<close>

definition confirm_and_clean ::
  "word_finder \<Rightarrow> locals \<Rightarrow> reply list
     \<Rightarrow> py_error option \<times> locals \<times> reply list \<times> event list" where
  "confirm_and_clean self v ins =
     (case validate_key self (v_my_new_key_in v) (v_set_text v) ins of
        (Inl e, r, ev) \<Rightarrow> (Some e, v, r, ev)
      | (Inr my_new_key, r, ev) \<Rightarrow>
          let v = v\<lparr>v_my_new_key := my_new_key\<rparr> in
          (case my_new_key of
             None \<Rightarrow> (None, v, r, ev)
           | Some k \<Rightarrow>
               if k = [] then (None, v, r, ev)
               else
                 (case check_and_remove_invalid_chars self k (v_set_text v) r of
                    (Inl e, r', ev') \<Rightarrow> (Some e, v, r', ev @ ev')
                  | (Inr (set_text, invalid_pts'), r', ev') \<Rightarrow>
                      (None,
                       v\<lparr>v_set_text := set_text,
                         v_invalid_pts := v_invalid_pts v @ invalid_pts'\<rparr>,
                       r', ev @ ev'))))"

text \<open>The fallback to manual input.\<close>

definition manual_round ::
  "word_finder \<Rightarrow> (str \<Rightarrow> int option) \<Rightarrow> bytes \<Rightarrow> locals \<Rightarrow> reply list
     \<Rightarrow> py_error option \<times> locals \<times> reply list \<times> event list" where
  "manual_round self int_of target_key v ins =
     (case get_input_key int_of target_key (v_set_text v) ins of
        (my_new_key_in, r, ev) \<Rightarrow>
          (case confirm_and_clean self (v\<lparr>v_my_new_key_in := Some my_new_key_in\<rparr>) r of
             (e, v', r', ev') \<Rightarrow> (e, v', r', ev @ ev')))"

text \<open>
  The inner \<^verbatim>\<open>try\<close> of the branch where the confirmed key is the current one: the
  generator runs again with strictness 0; any exception but KeyboardInterrupt
  leads to manual input.
\<close>

definition retry_generation ::
  "word_finder \<Rightarrow> (str \<Rightarrow> int option) \<Rightarrow> bytes \<Rightarrow> bytes \<Rightarrow> locals \<Rightarrow> reply list
     \<Rightarrow> py_error option \<times> locals \<times> reply list \<times> event list" where
  "retry_generation self int_of target_key new_target_key v ins =
     (let gen = Generate new_target_key (v_set_text v);
          tried =
            (case identify_potential_keys self new_target_key (v_set_text v) 0 True of
               Inl e \<Rightarrow> (Some e, v, ins, [gen])
             | Inr new_target_keys \<Rightarrow>
                 (case get_new_keys self int_of new_target_keys (v_set_text v) ins of
                    (Inl e, r, ev) \<Rightarrow> (Some e, v, r, gen # ev)
                  | (Inr my_new_key_in, r, ev) \<Rightarrow>
                      (case confirm_and_clean self (v\<lparr>v_my_new_key_in := my_new_key_in\<rparr>) r of
                         (e, v', r', ev') \<Rightarrow> (e, v', r', gen # ev @ ev'))))
      in case tried of
           (None, v', r, ev) \<Rightarrow> (None, v', r, ev)
         | (Some e, v', r, ev) \<Rightarrow>
             if e = KeyboardInterrupt then (Some e, v', r, ev)
             else
               (case manual_round self int_of target_key v' r of
                  (e', v'', r', ev') \<Rightarrow> (e', v'', r', ev @ ev')))"

text \<open>
  The state at the head of the loop: \<^verbatim>\<open>my_new_key\<close>, which the iteration takes as
  its \<^verbatim>\<open>target_key\<close>, the active ciphertexts and the record of removed ones.
\<close>

record session =
  s_key :: bytes
  s_texts :: "bytes list"
  s_invalid :: "bytes list"

text \<open>
  What the function returns: \<^verbatim>\<open>target_key\<close>, the pair of it with the invalid
  record, or \<^verbatim>\<open>((target_key, key), invalid_pts)\<close>; or the exception that leaves it.
\<close>

datatype outcome =
  Returned_key bytes
  | Returned_key_invalid bytes "bytes list"
  | Returned_pair bytes "bytes option" "bytes list"
  | Raised py_error

datatype step = Done outcome | Next session

text \<open>
  The selection of \<^verbatim>\<open>new_target_key\<close> from the generator's answer: a single key
  as it is; the longest of a list (the last of them) when the oracle confirms it.
  \<open>None\<close> stands for the two \<^verbatim>\<open>return target_key, self.invalid_pts\<close>.
\<close>

definition pick_candidate ::
  "word_finder \<Rightarrow> key_result \<Rightarrow> bytes list \<Rightarrow> reply list
     \<Rightarrow> (py_error + bytes option) \<times> reply list \<times> event list" where
  "pick_candidate self new_target_key set_text ins =
     (case new_target_key of
        Key k \<Rightarrow> (Inr (Some k), ins, [])
      | Keys ks \<Rightarrow>
          if ks \<noteq> [] then
            let temp_key = last (sort_key length ks) in
            (case validate_key self (Some temp_key) set_text ins of
               (Inl e, r, ev) \<Rightarrow> (Inl e, r, ev)
             | (Inr res, r, ev) \<Rightarrow>
                 if truthy_key res then (Inr (Some temp_key), r, ev) else (Inr None, r, ev))
          else (Inr None, ins, []))"

text \<open>
  The end of the body: the handler of KeyboardInterrupt, the last
  \<^verbatim>\<open>if not my_new_key\<close>, and otherwise the next iteration.
\<close>

definition finish ::
  "bytes \<Rightarrow> py_error option \<times> locals \<times> reply list \<times> event list
     \<Rightarrow> step \<times> reply list \<times> event list" where
  "finish target_key res =
     (case res of
        (Some e, v, r, ev) \<Rightarrow>
          if e = KeyboardInterrupt
          then (Done (Returned_pair target_key (v_my_new_key v) (v_invalid_pts v)), r, ev)
          else (Done (Raised e), r, ev)
      | (None, v, r, ev) \<Rightarrow>
          (case v_my_new_key v of
             None \<Rightarrow>
               (Done (Returned_pair target_key (v_my_new_key_in v) (v_invalid_pts v)), r, ev)
           | Some k \<Rightarrow>
               if k = []
               then (Done (Returned_pair target_key (v_my_new_key_in v) (v_invalid_pts v)), r, ev)
               else (Next \<lparr>s_key = k, s_texts = v_set_text v, s_invalid = v_invalid_pts v\<rparr>,
                     r, ev)))"

text \<open>The events of a block put after those that came before it.\<close>

definition after ::
  "event list \<Rightarrow> py_error option \<times> locals \<times> reply list \<times> event list
     \<Rightarrow> py_error option \<times> locals \<times> reply list \<times> event list" where
  "after ev0 res = (case res of (e, v, r, ev) \<Rightarrow> (e, v, r, ev0 @ ev))"

text \<open>The body of the \<^verbatim>\<open>while\<close> loop, entered when \<^verbatim>\<open>len(set_text) != 1\<close>.\<close>

definition session_step ::
  "word_finder \<Rightarrow> (str \<Rightarrow> int option) \<Rightarrow> session \<Rightarrow> reply list
     \<Rightarrow> step \<times> reply list \<times> event list" where
  "session_step self int_of s ins =
     (let target_key = s_key s;
          set_text = filter (\<lambda>x. length target_key < length x) (s_texts s);
          gen = Generate target_key set_text
      in if length set_text = 1 then (Done (Returned_key target_key), ins, [])
         else
           (case identify_potential_keys self target_key set_text 2 True of
              Inl e \<Rightarrow> (Done (Raised e), ins, [gen])
            | Inr new_target_key \<Rightarrow>
                (case pick_candidate self new_target_key set_text ins of
                   (Inl e, r, ev) \<Rightarrow>
                     (if e = KeyboardInterrupt
                      then Done (Returned_pair target_key (Some target_key) (s_invalid s))
                      else Done (Raised e), r, gen # ev)
                 | (Inr None, r, ev) \<Rightarrow>
                     (Done (Returned_key_invalid target_key (s_invalid s)), r, gen # ev)
                 | (Inr (Some new_target_key), r, ev) \<Rightarrow>
                     let v = \<lparr>v_my_new_key = None, v_my_new_key_in = None,
                              v_set_text = set_text, v_invalid_pts = s_invalid s\<rparr>
                     in
                     (case validate_key self (Some new_target_key) set_text r of
                        (Inl e, r1, ev1) \<Rightarrow> finish target_key (Some e, v, r1, gen # ev @ ev1)
                      | (Inr result, r1, ev1) \<Rightarrow>
                          if truthy_key result then
                            if target_key \<noteq> new_target_key then
                              (Next \<lparr>s_key = new_target_key, s_texts = set_text,
                                      s_invalid = s_invalid s\<rparr>, r1, gen # ev @ ev1)
                            else
                              (case retry_generation self int_of target_key new_target_key v r1 of
                                 (Some e, v', r2, ev2) \<Rightarrow>
                                   finish target_key (Some e, v', r2, gen # ev @ ev1 @ ev2)
                               | (None, v', r2, ev2) \<Rightarrow>
                                   if \<not> truthy_key (v_my_new_key v') then
                                     finish target_key
                                       (after (gen # ev @ ev1 @ ev2)
                                          (manual_round self int_of target_key v' r2))
                                   else finish target_key (None, v', r2, gen # ev @ ev1 @ ev2))
                          else
                            finish target_key
                              (after (gen # ev @ ev1)
                                 (manual_round self int_of target_key v r1))))))"

text \<open>
  The heads of the loop that a call can reach: the state of the call itself,
  and the state after any iteration that goes on, entered when the number of
  active ciphertexts is not 1.
\<close>

inductive loop_head ::
  "word_finder \<Rightarrow> (str \<Rightarrow> int option) \<Rightarrow> session \<Rightarrow> reply list \<Rightarrow> session \<Rightarrow> reply list
     \<Rightarrow> bool" where
  start: "loop_head self int_of s ins s ins"
| iterate:
    "loop_head self int_of s ins s1 ins1 \<Longrightarrow> length (s_texts s1) \<noteq> 1 \<Longrightarrow>
     session_step self int_of s1 ins1 = (Next s2, ins2, ev) \<Longrightarrow>
     loop_head self int_of s ins s2 ins2"

text \<open>
  \<open>decodes self int_of s ins s1 e\<close>: in the session that starts in state \<open>s\<close> with
  the replies \<open>ins\<close>, the iteration entered in state \<open>s1\<close> decodes as \<open>e\<close> says.
\<close>

inductive decodes ::
  "word_finder \<Rightarrow> (str \<Rightarrow> int option) \<Rightarrow> session \<Rightarrow> reply list \<Rightarrow> session \<Rightarrow> event
     \<Rightarrow> bool" where
  in_iteration:
    "loop_head self int_of s ins s1 ins1 \<Longrightarrow> length (s_texts s1) \<noteq> 1 \<Longrightarrow>
     session_step self int_of s1 ins1 = (st, ins2, ev) \<Longrightarrow> e \<in> set ev \<Longrightarrow>
     decodes self int_of s ins s1 e"

text \<open>
  An event is in order for the key \<open>k\<close> when, if it is a call of the generator or
  the decoding of \<^verbatim>\<open>get_input_key\<close>, its key is \<open>k\<close> and every text is longer than
  \<open>k\<close>.
\<close>

definition in_order :: "bytes \<Rightarrow> event \<Rightarrow> bool" where
  "in_order k e =
     (case e of
        Generate k' T \<Rightarrow> k' = k \<and> list_all (\<lambda>x. length k < length x) T
      | Manual k' T \<Rightarrow> k' = k \<and> list_all (\<lambda>x. length k < length x) T
      | Propose k' T \<Rightarrow> True
      | Clean k' T \<Rightarrow> True)"

lemma in_order_simps [simp]:
  "in_order k (Generate k' T) \<longleftrightarrow> k' = k \<and> list_all (\<lambda>x. length k < length x) T"
  "in_order k (Manual k' T) \<longleftrightarrow> k' = k \<and> list_all (\<lambda>x. length k < length x) T"
  "in_order k (Propose k' T)"
  "in_order k (Clean k' T)"
  by (simp_all add: in_order_def)

lemma validate_key_events:
  "validate_key self key T ins = (res, r, ev) \<Longrightarrow> list_all (in_order k) ev"
  by (auto simp: validate_key_def split: option.splits prod.splits sum.splits if_splits)

lemma check_new_target_keys_events:
  "check_new_target_keys self int_of ks T ins = (res, r, ev) \<Longrightarrow> list_all (in_order k) ev"
  by (auto simp: check_new_target_keys_def Let_def list_all_iff
        split: option.splits prod.splits sum.splits if_splits)

lemma get_new_keys_loop_events:
  "get_new_keys_loop self int_of ks T ins = (res, r, ev) \<Longrightarrow> list_all (in_order k) ev"
proof (induction self int_of ks T ins arbitrary: res r ev rule: get_new_keys_loop.induct)
  case (1 self int_of new_keys set_text ins)
  obtain res0 r0 ev0 where c: "check_new_target_keys self int_of new_keys set_text ins = (res0, r0, ev0)"
    by (cases "check_new_target_keys self int_of new_keys set_text ins")
  from check_new_target_keys_events [OF c] have e0: "list_all (in_order k) ev0" .
  show ?case
  proof (cases res0)
    case (Inl e)
    with 1(2) c e0 show ?thesis by (simp add: get_new_keys_loop.simps [of self int_of new_keys])
  next
    case (Inr kr)
    show ?thesis
    proof (cases kr)
      case (Key b)
      with 1(2) c e0 Inr show ?thesis
        by (auto simp: get_new_keys_loop.simps [of self int_of new_keys] split: if_splits)
    next
      case (Keys ks')
      show ?thesis
      proof (cases "ks' = []")
        case True
        with 1(2) c e0 Inr Keys show ?thesis
          by (simp add: get_new_keys_loop.simps [of self int_of new_keys])
      next
        case False
        obtain res1 r1 ev1 where l: "get_new_keys_loop self int_of ks' set_text r0 = (res1, r1, ev1)"
          by (cases "get_new_keys_loop self int_of ks' set_text r0")
        from "1.IH" [OF c [symmetric] Inr Keys refl False l]
        have "list_all (in_order k) ev1" .
        with 1(2) c e0 Inr Keys False l show ?thesis
          by (auto simp: get_new_keys_loop.simps [of self int_of new_keys])
      qed
    qed
  qed
qed

lemma get_new_keys_events:
  "get_new_keys self int_of kr T ins = (res, r, ev) \<Longrightarrow> list_all (in_order k) ev"
  by (auto simp: get_new_keys_def dest: get_new_keys_loop_events split: key_result.splits)

lemma check_and_remove_events:
  "check_and_remove_invalid_chars self key T ins = (res, r, ev) \<Longrightarrow> list_all (in_order k) ev"
  by (auto simp: check_and_remove_invalid_chars_def Let_def
        split: prod.splits sum.splits if_splits)

lemma get_input_key_try_events:
  "get_input_key_try int_of k T ins = (res, r, ev) \<Longrightarrow> list_all (in_order k) ev"
  by (auto simp: get_input_key_try_def Let_def
        split: option.splits prod.splits sum.splits if_splits)

lemma get_input_key_events:
  "get_input_key int_of k T ins = (key, r, ev) \<Longrightarrow> list_all (in_order k) ev"
proof -
  assume a: "get_input_key int_of k T ins = (key, r, ev)"
  let ?S = "filter (\<lambda>x. length k < length x) T"
  obtain res0 r0 ev0 where t: "get_input_key_try int_of k ?S ins = (res0, r0, ev0)"
    by (cases "get_input_key_try int_of k ?S ins")
  from get_input_key_try_events [OF t] have "list_all (in_order k) ev0" .
  moreover from a t have "ev = Manual k ?S # ev0"
    by (auto simp: get_input_key_def Let_def split: sum.splits py_error.splits)
  ultimately show ?thesis by (simp add: list_all_iff)
qed

lemma confirm_and_clean_events:
  "confirm_and_clean self v ins = (e, v', r, ev) \<Longrightarrow> list_all (in_order k) ev"
proof -
  assume a: "confirm_and_clean self v ins = (e, v', r, ev)"
  obtain res0 r0 ev0 where
    val: "validate_key self (v_my_new_key_in v) (v_set_text v) ins = (res0, r0, ev0)"
    by (cases "validate_key self (v_my_new_key_in v) (v_set_text v) ins")
  from validate_key_events [OF val] have e0: "list_all (in_order k) ev0" .
  show ?thesis
  proof (cases res0)
    case (Inl x)
    with a val e0 show ?thesis by (simp add: confirm_and_clean_def)
  next
    case (Inr key)
    show ?thesis
    proof (cases "truthy_key key")
      case False
      with a val e0 Inr show ?thesis
        by (auto simp: confirm_and_clean_def truthy_key_def Let_def split: option.splits if_splits)
    next
      case True
      then obtain b where b: "key = Some b" "b \<noteq> []"
        by (auto simp: truthy_key_def split: option.splits)
      obtain res1 r1 ev1 where
        cl: "check_and_remove_invalid_chars self b (v_set_text v) r0 = (res1, r1, ev1)"
        by (cases "check_and_remove_invalid_chars self b (v_set_text v) r0")
      from check_and_remove_events [OF cl] have "list_all (in_order k) ev1" .
      with a val e0 Inr b cl show ?thesis
        by (auto simp: confirm_and_clean_def Let_def split: sum.splits prod.splits)
    qed
  qed
qed

lemma manual_round_events:
  "manual_round self int_of k v ins = (e, v', r, ev) \<Longrightarrow> list_all (in_order k) ev"
proof -
  assume a: "manual_round self int_of k v ins = (e, v', r, ev)"
  obtain key r0 ev0 where g: "get_input_key int_of k (v_set_text v) ins = (key, r0, ev0)"
    by (cases "get_input_key int_of k (v_set_text v) ins")
  obtain e1 v1 r1 ev1 where
    c: "confirm_and_clean self (v\<lparr>v_my_new_key_in := Some key\<rparr>) r0 = (e1, v1, r1, ev1)"
    by (cases "confirm_and_clean self (v\<lparr>v_my_new_key_in := Some key\<rparr>) r0")
  from get_input_key_events [OF g] confirm_and_clean_events [OF c] a g c
  show ?thesis by (auto simp: manual_round_def)
qed

lemma retry_generation_events:
  assumes "retry_generation self int_of k k v ins = (e, v', r, ev)"
      and "list_all (\<lambda>x. length k < length x) (v_set_text v)"
  shows "list_all (in_order k) ev"
proof -
  let ?gen = "Generate k (v_set_text v)"
  define tried where "tried =
     (case identify_potential_keys self k (v_set_text v) 0 True of
        Inl e \<Rightarrow> (Some e, v, ins, [?gen])
      | Inr new_target_keys \<Rightarrow>
          (case get_new_keys self int_of new_target_keys (v_set_text v) ins of
             (Inl e, r, ev) \<Rightarrow> (Some e, v, r, ?gen # ev)
           | (Inr my_new_key_in, r, ev) \<Rightarrow>
               (case confirm_and_clean self (v\<lparr>v_my_new_key_in := my_new_key_in\<rparr>) r of
                  (e, v', r', ev') \<Rightarrow> (e, v', r', ?gen # ev @ ev'))))"
  obtain e0 v0 r0 ev0 where t: "tried = (e0, v0, r0, ev0)" by (cases tried)
  have g: "in_order k ?gen" using assms(2) by simp
  have ev0: "list_all (in_order k) ev0"
  proof (cases "identify_potential_keys self k (v_set_text v) 0 True")
    case (Inl x)
    with t g show ?thesis by (auto simp: tried_def)
  next
    case (Inr kr)
    obtain res1 r1 ev1 where
      n: "get_new_keys self int_of kr (v_set_text v) ins = (res1, r1, ev1)"
      by (cases "get_new_keys self int_of kr (v_set_text v) ins")
    from get_new_keys_events [OF n] have e1: "list_all (in_order k) ev1" .
    show ?thesis
    proof (cases res1)
      case (Inl x)
      with t g Inr n e1 show ?thesis by (auto simp: tried_def)
    next
      case (Inr key)
      obtain e2 v2 r2 ev2 where
        c: "confirm_and_clean self (v\<lparr>v_my_new_key_in := key\<rparr>) r1 = (e2, v2, r2, ev2)"
        by (cases "confirm_and_clean self (v\<lparr>v_my_new_key_in := key\<rparr>) r1")
      from confirm_and_clean_events [OF c] have "list_all (in_order k) ev2" .
      with t g \<open>identify_potential_keys self k (v_set_text v) 0 True = Inr kr\<close> n e1 Inr c
      show ?thesis by (auto simp: tried_def)
    qed
  qed
  have r: "retry_generation self int_of k k v ins =
      (case tried of
         (None, v', r, ev) \<Rightarrow> (None, v', r, ev)
       | (Some e, v', r, ev) \<Rightarrow>
           if e = KeyboardInterrupt then (Some e, v', r, ev)
           else
             (case manual_round self int_of k v' r of
                (e', v'', r', ev') \<Rightarrow> (e', v'', r', ev @ ev')))"
    by (simp add: retry_generation_def tried_def Let_def)
  show ?thesis
  proof (cases "e0 = None \<or> e0 = Some KeyboardInterrupt")
    case True
    with assms(1) r t ev0 show ?thesis by auto
  next
    case False
    then obtain x where x: "e0 = Some x" "x \<noteq> KeyboardInterrupt" by auto
    obtain e3 v3 r3 ev3 where m: "manual_round self int_of k v0 r0 = (e3, v3, r3, ev3)"
      by (cases "manual_round self int_of k v0 r0")
    from manual_round_events [OF m] have "list_all (in_order k) ev3" .
    with assms(1) r t ev0 x m show ?thesis by auto
  qed
qed

lemma pick_candidate_events:
  "pick_candidate self kr T ins = (res, r, ev) \<Longrightarrow> list_all (in_order k) ev"
proof -
  assume a: "pick_candidate self kr T ins = (res, r, ev)"
  show ?thesis
  proof (cases kr)
    case (Key b)
    with a show ?thesis by (simp add: pick_candidate_def)
  next
    case (Keys ks)
    show ?thesis
    proof (cases "ks = []")
      case True
      with a Keys show ?thesis by (simp add: pick_candidate_def)
    next
      case False
      obtain res0 r0 ev0 where
        val: "validate_key self (Some (last (sort_key length ks))) T ins = (res0, r0, ev0)"
        by (cases "validate_key self (Some (last (sort_key length ks))) T ins")
      from validate_key_events [OF val] have "list_all (in_order k) ev0" .
      with a Keys False val show ?thesis
        by (auto simp: pick_candidate_def Let_def split: sum.splits if_splits)
    qed
  qed
qed

lemma finish_events:
  "finish k (e, v, r, ev) = (st, r', ev') \<Longrightarrow> ev' = ev"
  by (auto simp: finish_def split: option.splits if_splits)

lemma finish_after_events:
  assumes "finish k (after ev0 res) = (st, r', ev')"
      and "res = (e, v, r, ev)"
  shows "ev' = ev0 @ ev"
  using assms by (auto simp: after_def dest: finish_events)

lemma session_step_events:
  assumes a: "session_step self int_of s ins = (st, r, ev)"
  shows "list_all (in_order (s_key s)) ev"
proof -
  let ?k = "s_key s"
  let ?T = "filter (\<lambda>x. length ?k < length x) (s_texts s)"
  let ?gen = "Generate ?k ?T"
  let ?v = "\<lparr>v_my_new_key = None, v_my_new_key_in = None, v_set_text = ?T,
             v_invalid_pts = s_invalid s\<rparr>"
  have T: "list_all (\<lambda>x. length ?k < length x) ?T" by (simp add: list_all_iff)
  then have gen: "in_order ?k ?gen" by simp
  show ?thesis
  proof (cases "length ?T = 1")
    case True
    with a show ?thesis by (simp add: session_step_def Let_def)
  next
    case not1: False
    show ?thesis
    proof (cases "identify_potential_keys self ?k ?T 2 True")
      case (Inl e)
      with a not1 gen show ?thesis by (auto simp: session_step_def Let_def)
    next
      case ipk: (Inr kr)
      obtain res0 r0 ev0 where p: "pick_candidate self kr ?T ins = (res0, r0, ev0)"
        by (cases "pick_candidate self kr ?T ins")
      from pick_candidate_events [OF p] have e0: "list_all (in_order ?k) ev0" .
      show ?thesis
      proof (cases res0)
        case (Inl e)
        with a not1 gen ipk p e0 show ?thesis by (auto simp: session_step_def Let_def)
      next
        case res0: (Inr cand)
        show ?thesis
        proof (cases cand)
          case None
          with a not1 gen ipk p e0 res0 show ?thesis by (auto simp: session_step_def Let_def)
        next
          case cand: (Some nk)
          obtain res1 r1 ev1 where val: "validate_key self (Some nk) ?T r0 = (res1, r1, ev1)"
            by (cases "validate_key self (Some nk) ?T r0")
          from validate_key_events [OF val] have e1: "list_all (in_order ?k) ev1" .
          have pre: "list_all (in_order ?k) (?gen # ev0 @ ev1)" using gen e0 e1 by simp
          show ?thesis
          proof (cases res1)
            case (Inl e)
            with a not1 ipk p res0 cand val
            have "finish ?k (Some e, ?v, r1, ?gen # ev0 @ ev1) = (st, r, ev)"
              by (simp add: session_step_def Let_def)
            from finish_events [OF this] pre show ?thesis by simp
          next
            case res1: (Inr result)
            show ?thesis
            proof (cases "truthy_key result")
              case False
              obtain e2 v2 r2 ev2 where m: "manual_round self int_of ?k ?v r1 = (e2, v2, r2, ev2)"
                by (cases "manual_round self int_of ?k ?v r1")
              from manual_round_events [OF m] have e2: "list_all (in_order ?k) ev2" .
              from a not1 ipk p res0 cand val res1 False m
              have "finish ?k (after (?gen # ev0 @ ev1) (e2, v2, r2, ev2)) = (st, r, ev)"
                by (simp add: session_step_def Let_def)
              from finish_after_events [OF this refl] pre e2 show ?thesis by simp
            next
              case yes: True
              show ?thesis
              proof (cases "?k \<noteq> nk")
                case True
                with a not1 ipk p res0 cand val res1 yes pre show ?thesis
                  by (auto simp: session_step_def Let_def)
              next
                case False
                then have nk: "nk = ?k" by simp
                obtain e2 v2 r2 ev2 where
                  rt: "retry_generation self int_of ?k ?k ?v r1 = (e2, v2, r2, ev2)"
                  by (cases "retry_generation self int_of ?k ?k ?v r1")
                from retry_generation_events [OF rt] T
                have e2: "list_all (in_order ?k) ev2" by simp
                have pre2: "list_all (in_order ?k) (?gen # ev0 @ ev1 @ ev2)"
                  using pre e2 by simp
                show ?thesis
                proof (cases "e2 = None \<and> \<not> truthy_key (v_my_new_key v2)")
                  case True
                  obtain e3 v3 r3 ev3 where
                    m: "manual_round self int_of ?k v2 r2 = (e3, v3, r3, ev3)"
                    by (cases "manual_round self int_of ?k v2 r2")
                  from manual_round_events [OF m] have e3: "list_all (in_order ?k) ev3" .
                  from a not1 ipk p res0 cand val res1 yes nk rt True m
                  have "finish ?k (after (?gen # ev0 @ ev1 @ ev2) (e3, v3, r3, ev3)) = (st, r, ev)"
                    by (simp add: session_step_def Let_def)
                  from finish_after_events [OF this refl] pre2 e3 show ?thesis by simp
                next
                  case False
                  with a not1 ipk p res0 cand val res1 yes nk rt
                  have "finish ?k (e2, v2, r2, ?gen # ev0 @ ev1 @ ev2) = (st, r, ev)"
                    by (cases e2) (auto simp: session_step_def Let_def)
                  from finish_events [OF this] pre2 show ?thesis by simp
                qed
              qed
            qed
          qed
        qed
      qed
    qed
  qed
qed


definition S0 :: session where
  "S0 = \<lparr>s_key = ascii ''key'', s_texts = [ct_the_cat, ct_of_the], s_invalid = []\<rparr>"

definition S1 :: session where
  "S1 = \<lparr>s_key = ascii ''key1234'', s_texts = [ct_the_cat, ct_of_the], s_invalid = []\<rparr>"

definition replies0 :: "reply list" where
  "replies0 = [Line (chars ''n''), Line (chars ''0''), Line (chars ''the cat''), Line (chars ''y'')]"

lemmas eval_step_defs =
  session_step_def pick_candidate_def validate_key_def truthy_key_def finish_def after_def
  manual_round_def confirm_and_clean_def check_and_remove_invalid_chars_def
  get_invalid_idxs_def retry_generation_def get_new_keys_def check_new_target_keys_def

lemma S0_step:
  "session_step brown_sample int_of_digit S0 replies0 =
     (Next S1, [],
      [Generate (ascii ''key'') [ct_the_cat, ct_of_the],
       Propose (ascii ''key'') [ct_the_cat, ct_of_the],
       Manual (ascii ''key'') [ct_the_cat, ct_of_the],
       Propose (ascii ''key1234'') [ct_the_cat, ct_of_the],
       Propose (ascii ''key1234'') [ct_the_cat, ct_of_the],
       Clean (ascii ''key1234'') [ct_the_cat, ct_of_the]])"
  by (simp add: S0_def S1_def replies0_def eval_step_defs eval_session_defs eval_defs
        ct_the_cat_bytes ct_of_the_bytes brown_sample_def)



end
